theory Spec2Isabelle
  imports Main
begin

section \<open>JavaScript values\<close>

text \<open>
  The values that flow through the composite workflow form
  (\<^verbatim>\<open>static/scripts/mvc/tool/tool-form-composite.js\<close>): input values, option tables,
  flags and server responses are JSON-like data.  Functions (and with them the methods
  inherited from prototypes) are not values of this type.
\<close>

datatype jsval =
    JUndef
  | JNull
  | JBool bool
  | JNum int
  | JStr string
  | JArr "jsval list"
  | JObj "(string \<times> jsval) list"

datatype error = TypeError | ReferenceError

text \<open>Truthiness, as tested by \<^verbatim>\<open>&&\<close>, \<^verbatim>\<open>||\<close>, \<^verbatim>\<open>!\<close> and \<^verbatim>\<open>?:\<close>.\<close>

fun truthy :: "jsval \<Rightarrow> bool" where
  "truthy JUndef = False"
| "truthy JNull = False"
| "truthy (JBool b) = b"
| "truthy (JNum n) = (n \<noteq> 0)"
| "truthy (JStr s) = (s \<noteq> [])"
| "truthy (JArr xs) = True"
| "truthy (JObj kvs) = True"

text \<open>\<^verbatim>\<open>null == v\<close>: true of \<^verbatim>\<open>null\<close> and \<^verbatim>\<open>undefined\<close> only.\<close>

fun nullish :: "jsval \<Rightarrow> bool" where
  "nullish JUndef = True"
| "nullish JNull = True"
| "nullish v = False"

subsection \<open>Decimal rendering of numbers\<close>

definition digit_char :: "nat \<Rightarrow> char" where
  "digit_char n = ''0123456789'' ! (n mod 10)"

fun show_nat :: "nat \<Rightarrow> string" where
  "show_nat n = (if n < 10 then [digit_char n] else show_nat (n div 10) @ [digit_char n])"

declare show_nat.simps [simp del]

definition show_int :: "int \<Rightarrow> string" where
  "show_int i = (if i < 0 then CHR ''-'' # show_nat (nat (- i)) else show_nat (nat i))"

subsection \<open>String conversion and string operations\<close>

fun join :: "string \<Rightarrow> string list \<Rightarrow> string" where
  "join sep [] = []"
| "join sep [x] = x"
| "join sep (x # y # ys) = x @ sep @ join sep (y # ys)"

text \<open>\<^verbatim>\<open>String(v)\<close>.  An array joins its elements with commas, \<^verbatim>\<open>null\<close> and
  \<^verbatim>\<open>undefined\<close> elements giving the empty string.\<close>

fun js_string :: "jsval \<Rightarrow> string" where
  "js_string JUndef = ''undefined''"
| "js_string JNull = ''null''"
| "js_string (JBool b) = (if b then ''true'' else ''false'')"
| "js_string (JNum n) = show_int n"
| "js_string (JStr s) = s"
| "js_string (JArr xs) = join '','' (map (\<lambda>x. if nullish x then [] else js_string x) xs)"
| "js_string (JObj kvs) = ''[object Object]''"

text \<open>\<^verbatim>\<open>s.substring(a, b)\<close>: both indices are clamped to the string and swapped when
  the first exceeds the second.\<close>

definition substring :: "string \<Rightarrow> int \<Rightarrow> int \<Rightarrow> string" where
  "substring s a b =
     (let n = int (length s);
          a' = min (max a 0) n;
          b' = min (max b 0) n;
          lo = min a' b';
          hi = max a' b'
      in take (nat (hi - lo)) (drop (nat lo) s))"

text \<open>Reading a property of a value: own keys of an object, \<^verbatim>\<open>length\<close> and the
  indices of an array or a string.\<close>

definition array_index :: "string \<Rightarrow> nat \<Rightarrow> nat option" where
  "array_index key n = find (\<lambda>i. show_nat i = key) [0..<n]"

fun js_member :: "jsval \<Rightarrow> string \<Rightarrow> jsval" where
  "js_member (JObj kvs) key = (case map_of kvs key of Some v \<Rightarrow> v | None \<Rightarrow> JUndef)"
| "js_member (JArr xs) key =
     (if key = ''length'' then JNum (int (length xs))
      else case array_index key (length xs) of Some i \<Rightarrow> xs ! i | None \<Rightarrow> JUndef)"
| "js_member (JStr s) key =
     (if key = ''length'' then JNum (int (length s))
      else case array_index key (length s) of Some i \<Rightarrow> JStr [s ! i] | None \<Rightarrow> JUndef)"
| "js_member v key = JUndef"

text \<open>\<^verbatim>\<open>0 == v.length\<close> and \<^verbatim>\<open>v.length > 0\<close>, for a numeric length.\<close>

definition length_is_zero :: "jsval \<Rightarrow> bool" where
  "length_is_zero v = (js_member v ''length'' = JNum 0)"

definition length_positive :: "jsval \<Rightarrow> bool" where
  "length_positive v = (case js_member v ''length'' of JNum n \<Rightarrow> 0 < n | _ \<Rightarrow> False)"

section \<open>Data model\<close>

text \<open>One input node of a step.  A property that the object does not carry is
  \<^const>\<open>JUndef\<close>.  The identifier is the key under which the form toolkit registers
  the input's field, element and definition.\<close>

record input =
  i_id :: string
  i_name :: string
  i_type :: jsval
  i_value :: jsval
  i_options :: jsval
  i_data_ref :: "string option"
  i_is_workflow :: jsval
  i_optional :: jsval
  i_collapsible :: jsval
  i_collapsible_value :: jsval
  i_collapsible_preview :: jsval
  i_ignore :: jsval
  i_help :: jsval

text \<open>The inputs of a step form a tree: a section, a repeat or a conditional holds
  further input nodes.  A node of the tree carries the properties of its input and the
  input nodes nested in it.\<close>

datatype node = Node (node_input: input) (node_children: "node list")

text \<open>The inputs that the step lists itself, which \<^verbatim>\<open>_.each(b.inputs, ...)\<close> enumerates, and
  all input nodes of the tree, each node before the nodes nested in it.\<close>

definition top_level :: "node list \<Rightarrow> input list" where
  "top_level ns = map node_input ns"

fun node_inputs :: "node \<Rightarrow> input list" where
  "node_inputs (Node a cs) = a # concat (map node_inputs cs)"

definition all_nodes :: "node list \<Rightarrow> input list" where
  "all_nodes ns = concat (map node_inputs ns)"

text \<open>One upstream connection of an input: the name of the output and the order index
  of the step that produces it.\<close>

record connection =
  output_name :: string
  c_order_index :: nat

text \<open>A step of the workflow descriptor.  Its identifier is an integer, the key under
  which the two registries of the view store the step and its form.  The inputs are the
  input nodes that the step lists, in the order of the descriptor, each with the nodes
  nested in it; the connection table maps the name of an input to its upstream
  connections.\<close>

record step =
  step_id :: nat
  step_type :: string
  order_index :: nat
  s_name :: string
  s_annotation :: string
  s_description :: string
  s_collapsed :: bool
  inputs :: "node list"
  input_connections_by_name :: "(string \<times> connection list) list"
  post_job_actions :: "string list"

record workflow =
  wf_id :: string
  wf_name :: string
  wf_history_id :: jsval
  wf_steps :: "step list"

text \<open>What the form toolkit keeps for one rendered field and one rendered form.  The
  toolkit itself is a collaborator of the composite form; the records hold the parts of
  its state that \<^verbatim>\<open>initialize\<close>, \<^verbatim>\<open>_execute\<close> and \<^verbatim>\<open>_enabled\<close> read or change.\<close>

record field =
  fld_value :: jsval
  fld_cls :: "string list"
  fld_color :: "string option"

record form =
  f_title :: string
  field_list :: "(string \<times> field) list"
  element_list :: "(string \<times> bool) list"
  input_list :: "(string \<times> input) list"
  flat_dict :: "(string \<times> string) list"
  highlighted :: "string list"
  portlet_enabled :: bool

text \<open>A workflow parameter, as the parameter scan creates it on the first sighting of a name.\<close>

record wparam =
  p_type :: jsval
  p_is_workflow :: jsval
  p_label :: string
  p_name :: string
  p_color :: string

record history_form =
  new_history_name :: string
  hf_enabled :: bool

record request =
  r_inputs :: "nat \<rightharpoonup> jsval"
  r_parameters :: "nat \<rightharpoonup> (string \<rightharpoonup> jsval)"

text \<open>The view: the two registries keyed by step id, the index from parameter
  name to target field handles (a handle is the pair of the step key and the input's
  identifier), the discovered parameters, the parameter form, the history form
  (\<^const>\<open>None\<close> is \<^verbatim>\<open>null\<close>), the execute button, and what the view has sent out: the
  invocation requests handed to the transport and the notices shown in the modal.\<close>

record view =
  workflow_id :: string
  forms :: "(nat \<times> form) list"
  steps :: "(nat \<times> step) list"
  wp_targets :: "(string \<times> (nat \<times> string) list) list"
  wp_inputs :: "(string \<times> wparam) list"
  wp_form :: "(string \<times> field) list option"
  history_form :: "history_form option"
  btn_waiting :: bool
  requests :: "request list"
  modal_shown :: "(string \<times> jsval) list"
  refreshed :: nat

section \<open>Normalising the inputs of a step\<close>

text \<open>The callback that \<^verbatim>\<open>initialize\<close> hands to \<^verbatim>\<open>deepeach\<close> for a tool step:
  \<^verbatim>\<open>a.type && (a.options && 0 == a.options.length && (a.is_workflow = !0),
     a.value && "RuntimeValue" == a.value.__class__ ? a.value = null
     : -1 == ["data","data_collection"].indexOf(a.type)
       && "$" != String(a.value).substring(0,1)
       && (a.collapsible = !0, a.collapsible_value = a.value, a.collapsible_preview = !0))\<close>\<close>

definition visit_input :: "input \<Rightarrow> input" where
  "visit_input a =
     (if truthy (i_type a) then
        (let a1 = (if truthy (i_options a) \<and> length_is_zero (i_options a)
                   then a\<lparr>i_is_workflow := JBool True\<rparr> else a)
         in if truthy (i_value a1) \<and> js_member (i_value a1) ''__class__'' = JStr ''RuntimeValue''
            then a1\<lparr>i_value := JNull\<rparr>
            else if i_type a1 \<noteq> JStr ''data'' \<and> i_type a1 \<noteq> JStr ''data_collection''
                    \<and> substring (js_string (i_value a1)) 0 1 \<noteq> ''$''
            then a1\<lparr>i_collapsible := JBool True,
                     i_collapsible_value := i_value a1,
                     i_collapsible_preview := JBool True\<rparr>
            else a1)
      else a)"

text \<open>The provenance text, the \<^verbatim>\<open>_.reduce\<close> of the connection callback:
  \<^verbatim>\<open>function(a,b){ return a && (a += ", "), a + "Output dataset '" + b.output_name
     + "' from step " + b.order_index }\<close> from \<^verbatim>\<open>""\<close>.\<close>

definition provenance_step :: "string \<Rightarrow> connection \<Rightarrow> string" where
  "provenance_step a b =
     (if a \<noteq> [] then a @ '', '' else a)
       @ ''Output dataset '' @ [CHR 0x27] @ output_name b @ [CHR 0x27]
       @ '' from step '' @ show_nat (c_order_index b)"

definition provenance :: "connection list \<Rightarrow> string" where
  "provenance cs = foldl provenance_step [] cs"

text \<open>The callback handed to \<^verbatim>\<open>matchIds\<close>:
  \<^verbatim>\<open>b && (b.type = "hidden", b.value = b.ignore = "", b.options = null, b.help = ...)\<close>\<close>

definition connect_input :: "connection list \<Rightarrow> input \<Rightarrow> input" where
  "connect_input a b =
     b\<lparr>i_type := JStr ''hidden'', i_value := JStr [], i_ignore := JStr [],
       i_options := JNull, i_help := JStr (provenance a)\<rparr>"

text \<open>The callback handed to \<^verbatim>\<open>matchContext\<close>:
  \<^verbatim>\<open>a.is_workflow = !b.options || !b.options[a.value]\<close>\<close>

definition context_input :: "input \<Rightarrow> input \<Rightarrow> input" where
  "context_input a b =
     a\<lparr>i_is_workflow :=
         JBool (\<not> truthy (i_options b)
                \<or> \<not> truthy (js_member (i_options b) (js_string (i_value a))))\<rparr>"

text \<open>Modelled from the spec: the three traversal helpers \<^verbatim>\<open>deepeach\<close>
  (utils/utils), \<^verbatim>\<open>matchIds\<close> and \<^verbatim>\<open>matchContext\<close> (mvc/form/form-data) are not part of
  the file.  The normaliser "recursively visits every input node", "rewrites any input
  that has an incoming connection from a prior step", and recomputes the flag "for any
  data_ref-style dependent field" from "the referenced option set".  Over the tree of
  input nodes of a step, nested nodes included: \<^verbatim>\<open>deepeach\<close> applies its callback to every
  node, \<^verbatim>\<open>matchIds\<close> to every node whose name has an entry in the connection table,
  together with that entry, and \<^verbatim>\<open>matchContext\<close> to every node that names another node
  of the step as its \<^verbatim>\<open>data_ref\<close>, together with that node.\<close>

fun node_map :: "(input \<Rightarrow> input) \<Rightarrow> node \<Rightarrow> node" where
  "node_map callback (Node a cs) = Node (callback a) (map (node_map callback) cs)"

definition deepeach :: "node list \<Rightarrow> (input \<Rightarrow> input) \<Rightarrow> node list" where
  "deepeach ins callback = map (node_map callback) ins"

definition matchIds ::
  "node list \<Rightarrow> (string \<times> connection list) list \<Rightarrow> (connection list \<Rightarrow> input \<Rightarrow> input)
     \<Rightarrow> node list" where
  "matchIds ins mapping callback =
     map (node_map (\<lambda>node. case map_of mapping (i_name node) of
                              Some mapped \<Rightarrow> callback mapped node
                            | None \<Rightarrow> node)) ins"

definition matchContext :: "node list \<Rightarrow> (input \<Rightarrow> input \<Rightarrow> input) \<Rightarrow> node list" where
  "matchContext ins callback =
     map (node_map (\<lambda>node. case i_data_ref node of
                              None \<Rightarrow> node
                            | Some r \<Rightarrow> (case find (\<lambda>b. i_name b = r) (rev (all_nodes ins)) of
                                          Some target \<Rightarrow> callback node target
                                        | None \<Rightarrow> node))) ins"

text \<open>The display defaults merged into a step, \<^verbatim>\<open>b = a.merge({name: "Step " +
  (parseInt(f)+1) + ": " + b.name, ..., description: b.annotation && " - " +
  b.annotation || b.description, ..., collapsed: f > 0, ...}, b)\<close>, where \<^verbatim>\<open>f\<close> is the
  index of the step in the descriptor.\<close>

definition merge_defaults :: "nat \<Rightarrow> step \<Rightarrow> step" where
  "merge_defaults f b =
     b\<lparr>s_name := ''Step '' @ show_nat (f + 1) @ '': '' @ s_name b,
       s_description := (if s_annotation b \<noteq> [] then '' - '' @ s_annotation b
                         else s_description b),
       s_collapsed := (0 < f)\<rparr>"

text \<open>The branch of \<^verbatim>\<open>initialize\<close> for a step of type \<^verbatim>\<open>tool\<close>, up to the
  construction of its form.\<close>

definition normalize_tool :: "step \<Rightarrow> step" where
  "normalize_tool b =
     (let ins1 = deepeach (inputs b) visit_input;
          ins2 = matchIds ins1 (input_connections_by_name b) connect_input;
          ins3 = matchContext ins2 context_input
      in b\<lparr>inputs := ins3\<rparr>)"

text \<open>Modelled from the spec: the form constructors (mvc/form/form-view and
  mvc/tool/tool-form-base) are not part of the file.  The step form factory produces
  "one rendered form exposing a field_list (input_id to editable field handle) and an
  element_list (input_id to container handle)", and renders "the full recursive input
  tree": the form registers every input node of the tree.  It is enabled and carries no
  highlight when it is built, each field holds the value of its input, and the flat
  dictionary of the form's data maps the name of each input to its identifier.\<close>

definition make_form :: "string \<Rightarrow> input list \<Rightarrow> form" where
  "make_form title ins =
     \<lparr>f_title = title,
      field_list = map (\<lambda>i. (i_id i, \<lparr>fld_value = i_value i, fld_cls = [], fld_color = None\<rparr>)) ins,
      element_list = map (\<lambda>i. (i_id i, False)) ins,
      input_list = map (\<lambda>i. (i_id i, i)) ins,
      flat_dict = map (\<lambda>i. (i_name i, i_id i)) ins,
      highlighted = [],
      portlet_enabled = True\<rparr>"

text \<open>Storing under an integer key of a JavaScript object: an existing key keeps its
  place, and the keys enumerate in ascending order.\<close>

fun obj_put :: "nat \<Rightarrow> 'v \<Rightarrow> (nat \<times> 'v) list \<Rightarrow> (nat \<times> 'v) list" where
  "obj_put k v [] = [(k, v)]"
| "obj_put k v ((k', v') # xs) =
     (if k = k' then (k, v) # xs
      else if k < k' then (k, v) # (k', v') # xs
      else (k', v') # obj_put k v xs)"

text \<open>The body of the first loop of \<^verbatim>\<open>initialize\<close>, for the step \<^verbatim>\<open>b\<close> at index
  \<^verbatim>\<open>f\<close>: the form \<^verbatim>\<open>h\<close> stays \<^verbatim>\<open>null\<close> (\<^const>\<open>None\<close>) for a step type other than the
  three known ones.\<close>

definition is_data_input :: "string \<Rightarrow> bool" where
  "is_data_input t = (t = ''data_input'' \<or> t = ''data_collection_input'')"

definition prepare_step :: "nat \<Rightarrow> step \<Rightarrow> form option \<times> step" where
  "prepare_step f b0 =
     (let b = merge_defaults f b0
      in if is_data_input (step_type b)
         then (Some (make_form (''<b>'' @ s_name b @ ''</b>'') (all_nodes (inputs b))), b)
         else if step_type b = ''tool''
         then (let b' = normalize_tool b
               in (Some (make_form (s_name b') (all_nodes (inputs b'))), b'))
         else (None, b))"

fun prepare_steps ::
  "nat \<Rightarrow> step list \<Rightarrow> (nat \<times> form option) list \<times> (nat \<times> step) list
     \<Rightarrow> (nat \<times> form option) list \<times> (nat \<times> step) list" where
  "prepare_steps f [] reg = reg"
| "prepare_steps f (b0 # bs) (fs, ss) =
     (let (h, b) = prepare_step f b0
      in prepare_steps (Suc f) bs (obj_put (step_id b) h fs, obj_put (step_id b) b ss))"

section \<open>Discovering the workflow parameters\<close>

text \<open>The two dictionaries of the parameter scan, \<^verbatim>\<open>h\<close> (name to target fields) and \<^verbatim>\<open>i\<close>
  (name to parameter), are plain objects.  A name that every object inherits from
  \<^verbatim>\<open>Object.prototype\<close> is found in \<^verbatim>\<open>h\<close> before anything was stored under it, so that
  \<^verbatim>\<open>h[l] = h[l] || []\<close> keeps the inherited value and \<^verbatim>\<open>h[l].push(e)\<close> raises a type
  error.\<close>

definition object_prototype_keys :: "string list" where
  "object_prototype_keys =
     [''constructor'', ''hasOwnProperty'', ''isPrototypeOf'', ''propertyIsEnumerable'',
      ''toLocaleString'', ''toString'', ''valueOf'', ''__defineGetter__'',
      ''__defineSetter__'', ''__lookupGetter__'', ''__lookupSetter__'', ''__proto__'']"

text \<open>A dictionary with string keys, in the order in which the keys were first
  stored.\<close>

fun dict_put :: "string \<Rightarrow> 'v \<Rightarrow> (string \<times> 'v) list \<Rightarrow> (string \<times> 'v) list" where
  "dict_put k v [] = [(k, v)]"
| "dict_put k v ((k', v') # xs) =
     (if k = k' then (k, v) # xs else (k', v') # dict_put k v xs)"

text \<open>Changing the entry stored under a key, for the mutation of an object that a
  registry holds.\<close>

fun modify :: "'k \<Rightarrow> ('v \<Rightarrow> 'v) \<Rightarrow> ('k \<times> 'v) list \<Rightarrow> ('k \<times> 'v) list" where
  "modify k g [] = []"
| "modify k g ((k', v) # xs) =
     (if k = k' then (k', g v) # xs else (k', v) # modify k g xs)"

record bind_state =
  b_forms :: "(nat \<times> form option) list"
  b_targets :: "(string \<times> (nat \<times> string) list) list"
  b_params :: "(string \<times> wparam) list"
  b_count :: nat

text \<open>\<^verbatim>\<open>"hsl( " + 100 * ++j + ", 70%, 30% )"\<close>, for the incremented counter.\<close>

definition hsl :: "nat \<Rightarrow> string" where
  "hsl j = ''hsl( '' @ show_nat (100 * j) @ '', 70%, 30% )''"

text \<open>The helper \<^verbatim>\<open>k\<close> of \<^verbatim>\<open>initialize\<close>, which adds a class and a colour to the
  rendered field.\<close>

definition mark_field :: "string \<Rightarrow> string \<Rightarrow> field \<Rightarrow> field" where
  "mark_field b c a = a\<lparr>fld_cls := fld_cls a @ [c], fld_color := Some b\<rparr>"

text \<open>The name that the scan extracts from the string form of a value:
  \<^verbatim>\<open>l = a.sanitize(d.substring(2, d.length - 1))\<close>.  The sanitiser (utils/utils) is not
  part of the file and is a parameter of the model.\<close>

definition is_placeholder :: "jsval \<Rightarrow> bool" where
  "is_placeholder v = (substring (js_string v) 0 1 = ''$'')"

definition placeholder_name :: "(jsval \<Rightarrow> string) \<Rightarrow> jsval \<Rightarrow> string" where
  "placeholder_name sanitize v =
     (let d = js_string v in sanitize (JStr (substring d 2 (int (length d) - 1))))"

text \<open>The body of the inner loop of the parameter scan, for the input \<^verbatim>\<open>b\<close> of the step
  stored under the key \<^verbatim>\<open>c\<close>.  The scan is
  \<^verbatim>\<open>_.each(this.steps, function(b,c){ _.each(b.inputs, function(b){ ... }) })\<close>: it visits
  the inputs that a step lists itself and does not descend into them.\<close>

definition bind_input ::
  "(jsval \<Rightarrow> string) \<Rightarrow> nat \<Rightarrow> input \<Rightarrow> bind_state \<Rightarrow> error + bind_state" where
  "bind_input sanitize c b st =
     (if is_placeholder (i_value b) then
        (case map_of (b_forms st) c of
           Some (Some frm) \<Rightarrow>
             (let l = placeholder_name sanitize (i_value b)
              in if l \<in> set object_prototype_keys then Inl TypeError
                 else if map_of (field_list frm) (i_id b) = None
                         \<or> map_of (element_list frm) (i_id b) = None then Inl TypeError
                 else
                   (let targets = (case map_of (b_targets st) l of Some es \<Rightarrow> es | None \<Rightarrow> []);
                        h' = dict_put l (targets @ [(c, i_id b)]) (b_targets st);
                        (i', j') =
                          (case map_of (b_params st) l of
                             Some p \<Rightarrow> (b_params st, b_count st)
                           | None \<Rightarrow>
                               (dict_put l \<lparr>p_type = i_type b, p_is_workflow = i_options b,
                                            p_label = l, p_name = l,
                                            p_color = hsl (Suc (b_count st))\<rparr> (b_params st),
                                Suc (b_count st)));
                        color = (case map_of i' l of Some p \<Rightarrow> p_color p | None \<Rightarrow> []);
                        frm' = frm\<lparr>field_list :=
                                   modify (i_id b)
                                     (\<lambda>e. mark_field color ''ui-form-wp-target''
                                            (e\<lparr>fld_value := JStr l\<rparr>))
                                     (field_list frm),
                                  element_list := modify (i_id b) (\<lambda>f. True) (element_list frm)\<rparr>
                    in Inr (st\<lparr>b_forms := modify c (\<lambda>x. Some frm') (b_forms st),
                               b_targets := h', b_params := i', b_count := j'\<rparr>)))
         | _ \<Rightarrow> Inl TypeError)
      else Inr st)"

fun bind_inputs ::
  "(jsval \<Rightarrow> string) \<Rightarrow> nat \<Rightarrow> input list \<Rightarrow> bind_state \<Rightarrow> error + bind_state" where
  "bind_inputs sanitize c [] st = Inr st"
| "bind_inputs sanitize c (b # bs) st =
     (case bind_input sanitize c b st of
        Inl e \<Rightarrow> Inl e
      | Inr st' \<Rightarrow> bind_inputs sanitize c bs st')"

fun bind_steps ::
  "(jsval \<Rightarrow> string) \<Rightarrow> (nat \<times> step) list \<Rightarrow> bind_state \<Rightarrow> error + bind_state" where
  "bind_steps sanitize [] st = Inr st"
| "bind_steps sanitize ((c, b) # rest) st =
     (case bind_inputs sanitize c (top_level (inputs b)) st of
        Inl e \<Rightarrow> Inl e
      | Inr st' \<Rightarrow> bind_steps sanitize rest st')"

text \<open>The layout loop reads \<^verbatim>\<open>g.forms[b].$el\<close> for every step, which raises a type
  error on a \<^verbatim>\<open>null\<close> form.\<close>

fun layout_forms :: "(nat \<times> form option) list \<Rightarrow> error + (nat \<times> form) list" where
  "layout_forms [] = Inr []"
| "layout_forms ((k, None) # rest) = Inl TypeError"
| "layout_forms ((k, Some frm) # rest) =
     (case layout_forms rest of Inl e \<Rightarrow> Inl e | Inr fs \<Rightarrow> Inr ((k, frm) # fs))"

text \<open>The parameter form, built when at least one parameter was found; each of its
  fields is marked as a source in the colour of its parameter.\<close>

definition parameter_form :: "(string \<times> wparam) list \<Rightarrow> (string \<times> field) list option" where
  "parameter_form i =
     (if i = [] then None
      else Some (map (\<lambda>(n, p). (n, mark_field (p_color p) ''ui-form-wp-source''
                                     \<lparr>fld_value = JUndef, fld_cls = [], fld_color = None\<rparr>)) i))"

definition initialize :: "(jsval \<Rightarrow> string) \<Rightarrow> workflow \<Rightarrow> error + view" where
  "initialize sanitize f =
     (let (fs, ss) = prepare_steps 0 (wf_steps f) ([], [])
      in case bind_steps sanitize ss \<lparr>b_forms = fs, b_targets = [], b_params = [], b_count = 0\<rparr> of
           Inl e \<Rightarrow> Inl e
         | Inr st \<Rightarrow>
             (case layout_forms (b_forms st) of
                Inl e \<Rightarrow> Inl e
              | Inr fs' \<Rightarrow>
                  Inr \<lparr>workflow_id = wf_id f,
                       forms = fs',
                       steps = ss,
                       wp_targets = b_targets st,
                       wp_inputs = b_params st,
                       wp_form = parameter_form (b_params st),
                       history_form =
                         (if truthy (wf_history_id f) then None
                          else Some \<lparr>new_history_name = wf_name f, hf_enabled = True\<rparr>),
                       btn_waiting = False,
                       requests = [],
                       modal_shown = [],
                       refreshed = 0\<rparr>))"

section \<open>Propagating a parameter change\<close>

text \<open>The change handler of the parameter form:
  \<^verbatim>\<open>_.each(l.data.create(), function(b,c){ _.each(h[c], function(d){
     d.value(a.sanitize(b) || c) }) })\<close>.
  The argument \<^verbatim>\<open>changes\<close> is what \<^verbatim>\<open>l.data.create()\<close> returns, the current value of
  every parameter by name.  The function \<open>change_writes\<close> lists the calls of
  \<^verbatim>\<open>d.value\<close> in order, and \<open>onchange\<close> carries them out on the fields.\<close>

definition pushed_value :: "(jsval \<Rightarrow> string) \<Rightarrow> jsval \<Rightarrow> string \<Rightarrow> string" where
  "pushed_value sanitize b c = (if sanitize b \<noteq> [] then sanitize b else c)"

definition targets_of :: "(string \<times> (nat \<times> string) list) list \<Rightarrow> string \<Rightarrow> (nat \<times> string) list" where
  "targets_of h c = (case map_of h c of Some ds \<Rightarrow> ds | None \<Rightarrow> [])"

definition change_writes ::
  "(jsval \<Rightarrow> string) \<Rightarrow> (string \<times> (nat \<times> string) list) list \<Rightarrow> (string \<times> jsval) list
     \<Rightarrow> ((nat \<times> string) \<times> string) list" where
  "change_writes sanitize h changes =
     concat (map (\<lambda>(c, b). map (\<lambda>d. (d, pushed_value sanitize b c)) (targets_of h c)) changes)"

definition set_field :: "(nat \<times> string) \<Rightarrow> string \<Rightarrow> (nat \<times> form) list \<Rightarrow> (nat \<times> form) list" where
  "set_field d x fs =
     modify (fst d)
       (\<lambda>frm. frm\<lparr>field_list := modify (snd d) (\<lambda>e. e\<lparr>fld_value := JStr x\<rparr>) (field_list frm)\<rparr>)
       fs"

definition onchange :: "(jsval \<Rightarrow> string) \<Rightarrow> (string \<times> jsval) list \<Rightarrow> view \<Rightarrow> view" where
  "onchange sanitize changes v =
     v\<lparr>forms := foldl (\<lambda>fs (d, x). set_field d x fs) (forms v)
                   (change_writes sanitize (wp_targets v) changes)\<rparr>"

section \<open>Validation and submission\<close>

text \<open>Modelled from the spec: the data layer of a form (mvc/form/form-data) is not
  part of the file.  On execute the view is to "extract its current field values" from
  every step form: \<^verbatim>\<open>a.data.create()\<close> returns, for each key of the form's flat
  dictionary, the current value of the field registered under the matching identifier,
  and \<^verbatim>\<open>a.data.match(k)\<close> returns that identifier.\<close>

definition field_value :: "form \<Rightarrow> string \<Rightarrow> jsval" where
  "field_value a m = (case map_of (field_list a) m of Some e \<Rightarrow> fld_value e | None \<Rightarrow> JUndef)"

definition create :: "form \<Rightarrow> (string \<times> jsval) list" where
  "create a = map (\<lambda>(k, m). (k, field_value a m)) (flat_dict a)"

definition match :: "form \<Rightarrow> string \<Rightarrow> string" where
  "match a k = (case map_of (flat_dict a) k of Some m \<Rightarrow> m | None \<Rightarrow> ''undefined'')"

definition highlight :: "string \<Rightarrow> form \<Rightarrow> form" where
  "highlight m a = a\<lparr>highlighted := highlighted a @ [m]\<rparr>"

text \<open>The two tests of the loop body of \<^verbatim>\<open>_execute\<close>:
  \<^verbatim>\<open>l && l.values && l.values.length > 0\<close> for a data input, and
  \<^verbatim>\<open>n.optional || n.is_workflow || null != l\<close> for the input definition \<^verbatim>\<open>n\<close> of a tool
  step.\<close>

definition has_values :: "jsval \<Rightarrow> bool" where
  "has_values l =
     (truthy l \<and> truthy (js_member l ''values'') \<and> length_positive (js_member l ''values''))"

definition accepted :: "input \<Rightarrow> jsval \<Rightarrow> bool" where
  "accepted n l = (truthy (i_optional n) \<or> truthy (i_is_workflow n) \<or> \<not> nullish l)"

text \<open>The body of the loop \<^verbatim>\<open>for (var k in f)\<close> for the step \<^verbatim>\<open>g\<close>, on the request
  \<^verbatim>\<open>c\<close>, the flag \<^verbatim>\<open>d\<close> and the form \<^verbatim>\<open>a\<close>:
  \<^verbatim>\<open>-1 != ["data_input","data_collection_input"].indexOf(i)
     ? l && l.values && l.values.length > 0 ? c.inputs[j] = l.values[0]
                                             : d && (a.highlight(m), d = !1)
     : n.optional || n.is_workflow || null != l ? c.parameters[h][k] = l
                                                : (a.highlight(m), d = !1)\<close>\<close>

definition check_value ::
  "step \<Rightarrow> string \<times> jsval \<Rightarrow> request \<times> bool \<times> form \<Rightarrow> error + request \<times> bool \<times> form" where
  "check_value g kl st =
     (case (kl, st) of ((k, l), (c, d, a)) \<Rightarrow>
        (let m = match a k
         in if is_data_input (step_type g) then
              (if has_values l
               then Inr (c\<lparr>r_inputs := (r_inputs c)(order_index g \<mapsto>
                                          js_member (js_member l ''values'') ''0'')\<rparr>, d, a)
               else if d then Inr (c, False, highlight m a)
               else Inr (c, d, a))
            else
              (case map_of (input_list a) m of
                 None \<Rightarrow> Inl TypeError
               | Some n \<Rightarrow>
                   if accepted n l
                   then (case r_parameters c (step_id g) of
                           None \<Rightarrow> Inl TypeError
                         | Some sub \<Rightarrow>
                             Inr (c\<lparr>r_parameters := (r_parameters c)(step_id g \<mapsto> sub(k \<mapsto> l))\<rparr>,
                                  d, a))
                   else Inr (c, False, highlight m a))))"

fun check_values ::
  "step \<Rightarrow> (string \<times> jsval) list \<Rightarrow> request \<times> bool \<times> form
     \<Rightarrow> error option \<times> request \<times> bool \<times> form" where
  "check_values g [] st = (None, st)"
| "check_values g (kl # kls) st =
     (case check_value g kl st of
        Inl e \<Rightarrow> (Some e, st)
      | Inr st' \<Rightarrow> check_values g kls st')"

text \<open>The loop over \<^verbatim>\<open>this.forms\<close>.  For the form \<^verbatim>\<open>a\<close> under the key \<^verbatim>\<open>e\<close>:
  \<^verbatim>\<open>var f = a.data.create(), g = b.steps[e], h = g.step_id, i = g.step_type,
     j = g.order_index; c.parameters[h] = {}, a.trigger("reset"); for (var k in f) ...\<close>.
  An exception leaves the loop with the forms as they are at that moment.\<close>

fun check_forms ::
  "(nat \<times> step) list \<Rightarrow> (nat \<times> form) list \<Rightarrow> request \<times> bool
     \<Rightarrow> error option \<times> (nat \<times> form) list \<times> request \<times> bool" where
  "check_forms ss [] (c, d) = (None, [], c, d)"
| "check_forms ss ((e, a) # rest) (c, d) =
     (case map_of ss e of
        None \<Rightarrow> (Some TypeError, (e, a) # rest, c, d)
      | Some g \<Rightarrow>
          (case check_values g (create a)
                  (c\<lparr>r_parameters := (r_parameters c)(step_id g \<mapsto> Map.empty)\<rparr>, d,
                   a\<lparr>highlighted := []\<rparr>) of
             (Some err, c', d', a') \<Rightarrow> (Some err, (e, a') # rest, c', d')
           | (None, c', d', a') \<Rightarrow>
               (case check_forms ss rest (c', d') of
                  (err, rest', c'', d'') \<Rightarrow> (err, (e, a') # rest', c'', d''))))"

definition empty_request :: request where
  "empty_request = \<lparr>r_inputs = Map.empty, r_parameters = Map.empty\<rparr>"

definition validate :: "view \<Rightarrow> error option \<times> (nat \<times> form) list \<times> request \<times> bool" where
  "validate v = check_forms (steps v) (forms v) (empty_request, True)"

text \<open>\<^verbatim>\<open>_enabled: function(a){ a ? this.execute_btn.unwait() : this.execute_btn.wait(),
     a ? this.history_form.portlet.enable() : this.history_form.portlet.disable(),
     _.each(this.forms, function(b){ a ? b.portlet.enable() : b.portlet.disable() }) }\<close>\<close>

definition enabled :: "bool \<Rightarrow> view \<Rightarrow> error option \<times> view" where
  "enabled a v =
     (let v1 = v\<lparr>btn_waiting := \<not> a\<rparr>
      in case history_form v1 of
           None \<Rightarrow> (Some TypeError, v1)
         | Some hf \<Rightarrow>
             (None, v1\<lparr>history_form := Some (hf\<lparr>hf_enabled := a\<rparr>),
                       forms := map (\<lambda>(k, b). (k, b\<lparr>portlet_enabled := a\<rparr>)) (forms v1)\<rparr>))"

text \<open>\<^verbatim>\<open>_execute\<close>, up to the moment the request is handed to the transport:
  \<^verbatim>\<open>d ? (b._enabled(!1), ..., a.request({type: "POST", ..., data: c, ...}))
     : b._enabled(!0)\<close>.\<close>

definition execute :: "view \<Rightarrow> error option \<times> view" where
  "execute v =
     (case validate v of
        (Some e, fs, c, d) \<Rightarrow> (Some e, v\<lparr>forms := fs\<rparr>)
      | (None, fs, c, d) \<Rightarrow>
          (let v1 = v\<lparr>forms := fs\<rparr>
           in if d then
                (case enabled False v1 of
                   (Some e, v2) \<Rightarrow> (Some e, v2)
                 | (None, v2) \<Rightarrow> (None, v2\<lparr>requests := requests v2 @ [c]\<rparr>))
              else enabled True v1))"

section \<open>Handling the response\<close>

text \<open>What the view does not decide itself when a response arrives: whether the globals
  that the callbacks test before use, \<^verbatim>\<open>Galaxy.modal\<close> and
  \<^verbatim>\<open>parent.Galaxy.currHistoryPanel\<close>, are there, and whether the transport still calls
  \<^verbatim>\<open>complete\<close> after \<^verbatim>\<open>success\<close> or \<^verbatim>\<open>error\<close> has raised an exception.\<close>

record env =
  galaxy_modal :: bool
  history_panel :: bool
  completes_after_throw :: bool

datatype response = Success jsval | Failure jsval

text \<open>\<^verbatim>\<open>success: function(a){ ..., parent.Galaxy && parent.Galaxy.currHistoryPanel
     && parent.Galaxy.currHistoryPanel.refreshContents(), console.log(a) }\<close>\<close>

definition on_success :: "env \<Rightarrow> jsval \<Rightarrow> view \<Rightarrow> error option \<times> view" where
  "on_success en a v = (None, if history_panel en then v\<lparr>refreshed := Suc (refreshed v)\<rparr> else v)"

text \<open>\<^verbatim>\<open>error: function(a){ if (console.log(a), a && a.err_data) {
       var b = form.data.matchResponse(a.err_data);
       for (var c in b) { form.highlight(c, b[c]); break } }
     else Galaxy.modal && Galaxy.modal.show({title: "Job submission failed",
       body: a && a.err_msg || ToolTemplate.error(options.job_def), ...}) }\<close>
  No scope of the file binds the identifiers \<^verbatim>\<open>form\<close>, \<^verbatim>\<open>ToolTemplate\<close> and \<^verbatim>\<open>options\<close>:
  they are not parameters or variables of the callback, of \<^verbatim>\<open>_execute\<close> or of the module
  function, so that evaluating one of them raises a reference error.\<close>

definition on_error :: "env \<Rightarrow> jsval \<Rightarrow> view \<Rightarrow> error option \<times> view" where
  "on_error en a v =
     (if truthy a \<and> truthy (js_member a ''err_data'') then (Some ReferenceError, v)
      else if galaxy_modal en then
        (if truthy a \<and> truthy (js_member a ''err_msg'')
         then (None, v\<lparr>modal_shown := modal_shown v
                          @ [(''Job submission failed'', js_member a ''err_msg'')]\<rparr>)
         else (Some ReferenceError, v))
      else (None, v))"

text \<open>Modelled from the spec: the transport \<^verbatim>\<open>a.request\<close> (utils/utils) is not part of
  the file.  It calls \<^verbatim>\<open>success\<close> or \<^verbatim>\<open>error\<close> with the response, and "in all terminal
  cases (success or failure) the UI is finally re-enabled": the callback
  \<^verbatim>\<open>complete: function(){ b._enabled(!0) }\<close> runs after a callback that has returned.
  Neither the file nor the specification says whether the transport calls \<^verbatim>\<open>complete\<close>
  after a callback that has raised an exception, or lets the exception pass; the
  environment decides.\<close>

definition deliver :: "env \<Rightarrow> response \<Rightarrow> view \<Rightarrow> error option \<times> view" where
  "deliver en r v =
     (case (case r of Success a \<Rightarrow> on_success en a v | Failure a \<Rightarrow> on_error en a v) of
        (None, v1) \<Rightarrow> enabled True v1
      | (Some e, v1) \<Rightarrow>
          (Some e, if completes_after_throw en then snd (enabled True v1) else v1))"

section \<open>What the parameter scan computes\<close>

text \<open>The inputs that the parameter scan recognises, in the order in which the two
  nested loops visit them, each with the extracted name and the key of its step.\<close>

definition scan_hits :: "(jsval \<Rightarrow> string) \<Rightarrow> (nat \<times> step) list \<Rightarrow> (string \<times> nat \<times> input) list" where
  "scan_hits sanitize ss =
     concat (map (\<lambda>(c, b). map (\<lambda>i. (placeholder_name sanitize (i_value i), c, i))
                               (filter (\<lambda>i. is_placeholder (i_value i)) (top_level (inputs b)))) ss)"

text \<open>What the loop body does to the two dictionaries and the counter for one such
  input.\<close>

definition new_param :: "string \<Rightarrow> input \<Rightarrow> nat \<Rightarrow> wparam" where
  "new_param l b j =
     \<lparr>p_type = i_type b, p_is_workflow = i_options b, p_label = l, p_name = l, p_color = hsl j\<rparr>"

definition record_hit ::
  "string \<times> nat \<times> input
     \<Rightarrow> (string \<times> (nat \<times> string) list) list \<times> (string \<times> wparam) list \<times> nat
     \<Rightarrow> (string \<times> (nat \<times> string) list) list \<times> (string \<times> wparam) list \<times> nat" where
  "record_hit hit st =
     (case (hit, st) of ((l, c, b), (h, i, j)) \<Rightarrow>
        (dict_put l (targets_of h l @ [(c, i_id b)]) h,
         if map_of i l = None then dict_put l (new_param l b (Suc j)) i else i,
         if map_of i l = None then Suc j else j))"

text \<open>The two dictionaries and the counter of a state of the scan.\<close>

definition scan_state :: "bind_state \<Rightarrow> (string \<times> (nat \<times> string) list) list \<times> (string \<times> wparam) list \<times> nat" where
  "scan_state st = (b_targets st, b_params st, b_count st)"

text \<open>The distinct elements of a list in the order of their first occurrence.\<close>

fun first_seen :: "'a list \<Rightarrow> 'a list" where
  "first_seen [] = []"
| "first_seen (x # xs) = x # filter (\<lambda>y. y \<noteq> x) (first_seen xs)"

text \<open>The parameters are distinct, the counter is their number, and the parameter at
  position \<open>n\<close>, counted from zero, carries the colour of the counter value \<open>n + 1\<close>.\<close>

definition coloured :: "(string \<times> wparam) list \<Rightarrow> nat \<Rightarrow> bool" where
  "coloured i j =
     (j = length i \<and> distinct (map fst i)
      \<and> (\<forall>n < length i. p_color (snd (i ! n)) = hsl (Suc n)))"

text \<open>Reading a decimal numeral back.\<close>

definition digit_val :: "char \<Rightarrow> nat" where
  "digit_val c = of_char c - 48"

definition read_nat :: "string \<Rightarrow> nat" where
  "read_nat s = foldl (\<lambda>a c. 10 * a + digit_val c) 0 s"

text \<open>The colour string is the value that the helper \<^verbatim>\<open>k\<close> gives to the style properties
  \<^verbatim>\<open>color\<close> and \<^verbatim>\<open>border-color\<close> of a field.  In a style sheet the first component of
  \<^verbatim>\<open>hsl( h, s, l )\<close> is an angle in degrees on the colour wheel, so that the hue of the
  colour is the number \<open>h\<close> modulo 360.\<close>

definition hue_number :: "string \<Rightarrow> nat" where
  "hue_number s = read_nat (takeWhile (\<lambda>c. c \<noteq> CHR '','') (drop 5 s))"

definition css_hue :: "string \<Rightarrow> nat" where
  "css_hue s = hue_number s mod 360"

section \<open>What the validation loop computes\<close>

text \<open>The outcome of the loop of \<^verbatim>\<open>_execute\<close> in closed form, for one form \<open>a\<close> of the
  step \<open>g\<close>: which extracted value passes the test of its branch, whether all values of
  the form pass, which fields get highlighted when the flag \<^verbatim>\<open>d\<close> has the given value
  on entry, which values are written to the parameters of the step, and whether the
  form contributes a dataset to the inputs of the request.\<close>

definition tool_accepted :: "form \<Rightarrow> string \<times> jsval \<Rightarrow> bool" where
  "tool_accepted a kl =
     (case map_of (input_list a) (match a (fst kl)) of
        Some n \<Rightarrow> accepted n (snd kl)
      | None \<Rightarrow> False)"

definition first_value :: "jsval \<Rightarrow> jsval" where
  "first_value l = js_member (js_member l ''values'') ''0''"

definition field_valid :: "step \<Rightarrow> form \<Rightarrow> string \<times> jsval \<Rightarrow> bool" where
  "field_valid g a kl =
     (if is_data_input (step_type g) then has_values (snd kl) else tool_accepted a kl)"

definition form_valid :: "step \<Rightarrow> form \<Rightarrow> bool" where
  "form_valid g a = list_all (field_valid g a) (create a)"

definition form_highlights :: "step \<Rightarrow> form \<Rightarrow> bool \<Rightarrow> string list" where
  "form_highlights g a d =
     (let bad = map (\<lambda>kl. match a (fst kl)) (filter (\<lambda>kl. \<not> field_valid g a kl) (create a))
      in if is_data_input (step_type g) then (if d then take 1 bad else []) else bad)"

definition form_parameters :: "step \<Rightarrow> form \<Rightarrow> (string \<rightharpoonup> jsval)" where
  "form_parameters g a =
     (if is_data_input (step_type g) then Map.empty
      else map_of (rev (filter (field_valid g a) (create a))))"

definition form_selected :: "step \<Rightarrow> form \<Rightarrow> bool" where
  "form_selected g a =
     (is_data_input (step_type g) \<and> list_ex (\<lambda>kl. has_values (snd kl)) (create a))"

text \<open>The values of a tool step that fail the test
  \<^verbatim>\<open>n.optional || n.is_workflow || null != l\<close>: the field is neither optional nor
  workflow-bound, and the value is \<^verbatim>\<open>null\<close> or \<^verbatim>\<open>undefined\<close>.\<close>

definition required_and_null :: "input \<Rightarrow> jsval \<Rightarrow> bool" where
  "required_and_null n l = (\<not> truthy (i_optional n) \<and> \<not> truthy (i_is_workflow n) \<and> nullish l)"

text \<open>The forms of a registry have distinct keys, and each key names a step with that
  identifier.\<close>

definition keyed :: "(nat \<times> step) list \<Rightarrow> (nat \<times> form) list \<Rightarrow> bool" where
  "keyed ss fs =
     (distinct (map fst fs) \<and> (\<forall>(e, a) \<in> set fs. \<exists>g. map_of ss e = Some g \<and> step_id g = e))"

text \<open>The parts of the outcome of the validation loop: the exception it raised, if
  any, the flag \<^verbatim>\<open>d\<close>, the request \<^verbatim>\<open>c\<close> and the forms.\<close>

definition validation_error :: "view \<Rightarrow> error option" where
  "validation_error v = fst (validate v)"

definition validation_ok :: "view \<Rightarrow> bool" where
  "validation_ok v = snd (snd (snd (validate v)))"

definition validation_request :: "view \<Rightarrow> request" where
  "validation_request v = fst (snd (snd (validate v)))"

definition validation_forms :: "view \<Rightarrow> (nat \<times> form) list" where
  "validation_forms v = fst (snd (validate v))"

section \<open>The words of the specification\<close>

text \<open>The placeholder pattern in the words of the specification: "a leading \<^verbatim>\<open>$\<close> followed
  by a name and trailing \<^verbatim>\<open>$\<close>"; the result is the name.\<close>

definition dollar_name :: "string \<Rightarrow> string option" where
  "dollar_name d =
     (if 3 \<le> length d \<and> hd d = CHR ''$'' \<and> last d = CHR ''$'' then Some (butlast (tl d))
      else None)"

text \<open>The provenance text of one upstream connection in the words of the specification:
  "Output dataset '<name>' from step <order_index>".\<close>

definition output_description :: "connection \<Rightarrow> string" where
  "output_description b =
     ''Output dataset '' @ [CHR 0x27] @ output_name b @ [CHR 0x27]
       @ '' from step '' @ show_nat (c_order_index b)"

text \<open>The condition of the specification for an invalid value of a tool step: the field
  is required (neither optional nor workflow-bound) and the value is empty.  A value is
  empty when there is none (\<^verbatim>\<open>null\<close> or \<^verbatim>\<open>undefined\<close>) or when it is the empty string,
  the sense in which the change handler of the parameter form falls back to the name of
  the parameter "if the value is empty".\<close>

definition empty_value :: "jsval \<Rightarrow> bool" where
  "empty_value l = (nullish l \<or> l = JStr [])"

definition required_and_empty :: "input \<Rightarrow> jsval \<Rightarrow> bool" where
  "required_and_empty n l =
     (\<not> truthy (i_optional n) \<and> \<not> truthy (i_is_workflow n) \<and> empty_value l)"

section \<open>States of the view\<close>

text \<open>The field that a handle denotes in the registry of forms.\<close>

definition field_at :: "(nat \<times> form) list \<Rightarrow> nat \<times> string \<Rightarrow> field option" where
  "field_at fs d =
     (case map_of fs (fst d) of Some a \<Rightarrow> map_of (field_list a) (snd d) | None \<Rightarrow> None)"

text \<open>The user types or selects a value in a field.\<close>

definition edit_field :: "nat \<times> string \<Rightarrow> jsval \<Rightarrow> (nat \<times> form) list \<Rightarrow> (nat \<times> form) list" where
  "edit_field d x fs =
     modify (fst d)
       (\<lambda>frm. frm\<lparr>field_list := modify (snd d) (\<lambda>e. e\<lparr>fld_value := x\<rparr>) (field_list frm)\<rparr>)
       fs"

text \<open>The states that the view passes through: the state that \<^verbatim>\<open>initialize\<close> builds,
  and from a state the one after an execute attempt, after the delivery of a response,
  after a change event of the parameter form, and after an edit of a field.\<close>

inductive reachable :: "(jsval \<Rightarrow> string) \<Rightarrow> workflow \<Rightarrow> view \<Rightarrow> bool"
  for sanitize :: "jsval \<Rightarrow> string" and f :: workflow where
  built: "initialize sanitize f = Inr v \<Longrightarrow> reachable sanitize f v"
| attempt: "reachable sanitize f v \<Longrightarrow> reachable sanitize f (snd (execute v))"
| response: "reachable sanitize f v \<Longrightarrow> reachable sanitize f (snd (deliver en r v))"
| change: "reachable sanitize f v \<Longrightarrow> reachable sanitize f (onchange sanitize changes v)"
| edit: "reachable sanitize f v \<Longrightarrow> reachable sanitize f (v\<lparr>forms := edit_field d x (forms v)\<rparr>)"





text \<open>The two registries of a view list the same keys in ascending order, and each step
  is stored under its own identifier.\<close>

definition registry_ok :: "view \<Rightarrow> bool" where
  "registry_ok v =
     (sorted_wrt (<) (map fst (forms v))
      \<and> map fst (steps v) = map fst (forms v)
      \<and> (\<forall>(e, g) \<in> set (steps v). step_id g = e))"

definition prepared :: "(nat \<times> form option) list \<Rightarrow> (nat \<times> step) list \<Rightarrow> bool" where
  "prepared fs ss =
     (sorted_wrt (<) (map fst fs) \<and> map fst ss = map fst fs \<and> (\<forall>(e, g) \<in> set ss. step_id g = e))"

text \<open>Every key of the flat dictionary of a form leads to an input definition; the
  part of a registry of forms that says so.\<close>

definition wired :: "form \<Rightarrow> bool" where
  "wired a = (\<forall>(k, m) \<in> set (flat_dict a). map_of (input_list a) (match a k) \<noteq> None)"

definition forms_wired :: "(nat \<times> form) list \<Rightarrow> bool" where
  "forms_wired fs = (\<forall>(e, a) \<in> set fs. wired a)"

definition opt_wired :: "(nat \<times> form option) list \<Rightarrow> bool" where
  "opt_wired fs = (\<forall>e a. (e, Some a) \<in> set fs \<longrightarrow> wired a)"

definition wiring :: "(nat \<times> form) list \<Rightarrow> (nat \<times> (string \<times> string) list \<times> (string \<times> input) list) list" where
  "wiring fs = map (\<lambda>(e, a). (e, flat_dict a, input_list a)) fs"

section \<open>When the form build completes\<close>

text \<open>The three step types for which \<^verbatim>\<open>initialize\<close> builds a form, and the steps as the
  first loop of \<^verbatim>\<open>initialize\<close> stores them, which the parameter scan visits.\<close>

definition known_type :: "string \<Rightarrow> bool" where
  "known_type t = (is_data_input t \<or> t = ''tool'')"

definition prepared_steps :: "workflow \<Rightarrow> (nat \<times> step) list" where
  "prepared_steps f = snd (prepare_steps 0 (wf_steps f) ([], []))"

text \<open>A form registers a field and an element for every input that the step lists
  itself.  The two registries pair every stored step with such a form; every stored step
  finds such a form under its key; no form of the registry is \<^verbatim>\<open>null\<close>.\<close>

definition registers :: "form \<Rightarrow> step \<Rightarrow> bool" where
  "registers a s =
     (i_id ` set (top_level (inputs s)) \<subseteq> fst ` set (field_list a) \<inter> fst ` set (element_list a))"

definition paired :: "(nat \<times> form option) list \<Rightarrow> (nat \<times> step) list \<Rightarrow> bool" where
  "paired fs ss =
     list_all2 (\<lambda>p q. fst p = fst q \<and> (\<exists>a. snd p = Some a \<and> registers a (snd q))) fs ss"

definition ready :: "(nat \<times> form option) list \<Rightarrow> (nat \<times> step) list \<Rightarrow> bool" where
  "ready fs ss = (\<forall>(c, s) \<in> set ss. \<exists>a. map_of fs c = Some (Some a) \<and> registers a s)"

definition all_some :: "(nat \<times> form option) list \<Rightarrow> bool" where
  "all_some fs = (\<forall>(k, h) \<in> set fs. h \<noteq> None)"

section \<open>Example workflows\<close>

text \<open>An instance of the sanitiser for the examples: the text of the value with the
  characters \<^verbatim>\<open>&\<close>, \<^verbatim>\<open><\<close> and \<^verbatim>\<open>>\<close> escaped.\<close>

fun escape_char :: "char \<Rightarrow> string" where
  "escape_char c =
     (if c = CHR ''&'' then ''&amp;''
      else if c = CHR ''<'' then ''&lt;''
      else if c = CHR ''>'' then ''&gt;''
      else [c])"

definition escape_html :: "jsval \<Rightarrow> string" where
  "escape_html v = (if nullish v then [] else concat (map escape_char (js_string v)))"

text \<open>An input and a step that carry none of the optional properties; the inputs of the
  step have no nested inputs.\<close>

definition plain_input :: "string \<Rightarrow> string \<Rightarrow> jsval \<Rightarrow> jsval \<Rightarrow> input" where
  "plain_input ident name ty val =
     \<lparr>i_id = ident, i_name = name, i_type = ty, i_value = val, i_options = JUndef,
      i_data_ref = None, i_is_workflow = JUndef, i_optional = JUndef,
      i_collapsible = JUndef, i_collapsible_value = JUndef, i_collapsible_preview = JUndef,
      i_ignore = JUndef, i_help = JUndef\<rparr>"

definition plain_step ::
  "nat \<Rightarrow> string \<Rightarrow> nat \<Rightarrow> input list \<Rightarrow> (string \<times> connection list) list \<Rightarrow> step" where
  "plain_step sid ty idx ins conns =
     \<lparr>step_id = sid, step_type = ty, order_index = idx, s_name = ''step'',
      s_annotation = [], s_description = [], s_collapsed = False,
      inputs = map (\<lambda>i. Node i []) ins,
      input_connections_by_name = conns, post_job_actions = []\<rparr>"

text \<open>The form and the step stored under a key of a view.\<close>

definition form_of :: "view \<Rightarrow> nat \<Rightarrow> form" where
  "form_of v e = (case map_of (forms v) e of Some a \<Rightarrow> a | None \<Rightarrow> make_form [] [])"

definition step_at :: "view \<Rightarrow> nat \<Rightarrow> step" where
  "step_at v e = (case map_of (steps v) e of Some g \<Rightarrow> g | None \<Rightarrow> plain_step e [] 0 [] [])"

text \<open>A data input followed by a tool step with one input bound to a parameter, one
  literal text input and one input connected to the output of the first step.\<close>

definition example_steps :: "step list" where
  "example_steps =
     [plain_step 10 ''data_input'' 0 [plain_input ''u1'' ''input'' (JStr ''data'') JNull] [],
      plain_step 11 ''tool'' 1
        [plain_input ''u2'' ''c'' (JStr ''text'') (JStr ''${color}''),
         plain_input ''u3'' ''t'' (JStr ''text'') (JStr ''lit''),
         plain_input ''u4'' ''d'' (JStr ''data'') JNull]
        [(''d'', [\<lparr>output_name = ''output'', c_order_index = 0\<rparr>])]]"

definition example_workflow :: workflow where
  "example_workflow =
     \<lparr>wf_id = ''w1'', wf_name = ''Example'', wf_history_id = JUndef, wf_steps = example_steps\<rparr>"

definition example_workflow_in_history :: workflow where
  "example_workflow_in_history = example_workflow\<lparr>wf_history_id := JStr ''h1''\<rparr>"

text \<open>The example workflow as built, and after the user has selected a dataset for the
  data input of its first step.\<close>

definition example_dataset :: jsval where
  "example_dataset = JObj [(''values'', JArr [JObj [(''id'', JStr ''d1''), (''src'', JStr ''hda'')]])]"

definition example_view :: view where
  "example_view = projr (initialize escape_html example_workflow)"

definition example_view_selected :: view where
  "example_view_selected =
     example_view\<lparr>forms := edit_field (10, ''u1'') example_dataset (forms example_view)\<rparr>"

text \<open>A tool step whose only input is to be set at runtime, followed by a data input.\<close>

definition example_runtime_steps :: "step list" where
  "example_runtime_steps =
     [plain_step 5 ''tool'' 0
        [plain_input ''r1'' ''threshold'' (JStr ''integer'')
           (JObj [(''__class__'', JStr ''RuntimeValue'')])] [],
      plain_step 7 ''data_input'' 1 [plain_input ''r2'' ''input'' (JStr ''data'') JNull] []]"

definition example_runtime_workflow :: workflow where
  "example_runtime_workflow =
     \<lparr>wf_id = ''w2'', wf_name = ''Runtime'', wf_history_id = JUndef,
      wf_steps = example_runtime_steps\<rparr>"

definition example_runtime_view :: view where
  "example_runtime_view = projr (initialize escape_html example_runtime_workflow)"

text \<open>A tool step whose inputs hold values of the form \<^verbatim>\<open>$name$\<close>, and a workflow with two
  parameters of the form \<^verbatim>\<open>${name}\<close>, the first of them used by two steps.\<close>

definition example_dollar_workflow :: workflow where
  "example_dollar_workflow =
     \<lparr>wf_id = ''w3'', wf_name = ''Dollar'', wf_history_id = JUndef,
      wf_steps = [plain_step 1 ''tool'' 0
                    [plain_input ''p1'' ''x'' (JStr ''text'') (JStr ''$color$''),
                     plain_input ''p2'' ''y'' (JStr ''text'') (JStr ''$a$''),
                     plain_input ''p3'' ''z'' (JStr ''text'') (JStr ''$b$'')] []]\<rparr>"

definition example_params_workflow :: workflow where
  "example_params_workflow =
     \<lparr>wf_id = ''w4'', wf_name = ''Parameters'', wf_history_id = JUndef,
      wf_steps = [plain_step 1 ''tool'' 0
                    [plain_input ''q1'' ''x'' (JStr ''text'') (JStr ''${first}''),
                     plain_input ''q2'' ''y'' (JStr ''text'') (JStr ''${second}'')] [],
                  plain_step 2 ''tool'' 1
                    [plain_input ''q3'' ''z'' (JStr ''text'') (JStr ''${first}'')] []]\<rparr>"

text \<open>A data input step whose descriptor lists a connection for its input.\<close>

definition example_connected_data_workflow :: workflow where
  "example_connected_data_workflow =
     \<lparr>wf_id = ''w5'', wf_name = ''Connected'', wf_history_id = JUndef,
      wf_steps = [plain_step 3 ''data_input'' 0
                    [plain_input ''d1'' ''input'' (JStr ''data'') (JStr ''${x}'')]
                    [(''input'', [\<lparr>output_name = ''out'', c_order_index = 0\<rparr>])]]\<rparr>"

text \<open>A tool step with nineteen inputs, each bound to a parameter of its own.\<close>

definition example_nineteen_workflow :: workflow where
  "example_nineteen_workflow =
     \<lparr>wf_id = ''w9'', wf_name = ''Nineteen'', wf_history_id = JUndef,
      wf_steps = [plain_step 1 ''tool'' 0
                    (map (\<lambda>c. plain_input [c] [c] (JStr ''text'') (JStr (''${'' @ [c] @ ''}'')))
                       ''abcdefghijklmnopqrs'') []]\<rparr>"

text \<open>A tool step whose only input, a required text input, holds the empty string.\<close>

definition example_blank_workflow :: workflow where
  "example_blank_workflow =
     \<lparr>wf_id = ''w8'', wf_name = ''Blank'', wf_history_id = JUndef,
      wf_steps = [plain_step 4 ''tool'' 0
                    [plain_input ''e1'' ''title'' (JStr ''text'') (JStr [])] []]\<rparr>"

definition example_blank_view :: view where
  "example_blank_view = projr (initialize escape_html example_blank_workflow)"

text \<open>A tool step with a section that holds two nested inputs with placeholder values, and
  a tool step whose input names a property that every object inherits.\<close>

definition example_nested_workflow :: workflow where
  "example_nested_workflow =
     \<lparr>wf_id = ''w6'', wf_name = ''Nested'', wf_history_id = JUndef,
      wf_steps = [(plain_step 1 ''tool'' 0 [] [])\<lparr>inputs :=
                    [Node (plain_input ''s1'' ''options'' (JStr ''section'') JUndef)
                       [Node (plain_input ''s2'' ''options|x'' (JStr ''text'') (JStr ''$inner$'')) [],
                        Node (plain_input ''s3'' ''options|y'' (JStr ''text'') (JStr ''${deep}'')) []]]\<rparr>]\<rparr>"

definition example_inherited_workflow :: workflow where
  "example_inherited_workflow =
     \<lparr>wf_id = ''w7'', wf_name = ''Inherited'', wf_history_id = JUndef,
      wf_steps = [plain_step 1 ''tool'' 0
                    [plain_input ''c1'' ''x'' (JStr ''text'') (JStr ''${constructor}'')] []]\<rparr>"

section \<open>Trees of input nodes\<close>

lemma node_inputs_node_map: "node_inputs (node_map f t) = map f (node_inputs t)"
  by (induction t) (simp add: map_concat comp_def cong: map_cong)

lemma all_nodes_map: "all_nodes (map (node_map f) ns) = map f (all_nodes ns)"
  by (simp add: all_nodes_def map_concat comp_def node_inputs_node_map)

lemma top_level_map: "top_level (map (node_map f) ns) = map f (top_level ns)"
proof -
  have "node_input (node_map f t) = f (node_input t)" for t by (cases t) simp
  then show ?thesis by (simp add: top_level_def)
qed

lemma top_level_all_nodes: "set (top_level ns) \<subseteq> set (all_nodes ns)"
proof
  fix i assume "i \<in> set (top_level ns)"
  then obtain t where t: "t \<in> set ns" and i: "i = node_input t" by (auto simp: top_level_def)
  have "node_input t \<in> set (node_inputs t)" by (cases t) simp
  with t i show "i \<in> set (all_nodes ns)" by (auto simp: all_nodes_def)
qed

section \<open>Registries and field handles\<close>

lemma map_of_modify:
  "map_of (modify k g xs) k' = (if k' = k then map_option g (map_of xs k) else map_of xs k')"
  by (induction xs) auto

lemma map_fst_modify: "map fst (modify k g xs) = map fst xs"
  by (induction xs) auto

lemma field_at_set_field:
  "field_at (set_field d x fs) d' =
     (if d' = d then map_option (\<lambda>e. e\<lparr>fld_value := JStr x\<rparr>) (field_at fs d) else field_at fs d')"
  by (cases d; cases d') (auto simp: field_at_def set_field_def map_of_modify split: option.splits)

text \<open>After a sequence of writes a field holds the value of the last write to it.\<close>

lemma field_at_writes:
  "field_at (foldl (\<lambda>fs (d, x). set_field d x fs) fs ws) d' =
     (case map_of (rev ws) d' of
        Some x \<Rightarrow> map_option (\<lambda>e. e\<lparr>fld_value := JStr x\<rparr>) (field_at fs d')
      | None \<Rightarrow> field_at fs d')"
proof (induction ws rule: rev_induct)
  case Nil
  show ?case by simp
next
  case (snoc w ws)
  obtain d x where w: "w = (d, x)" by (cases w)
  let ?fs = "foldl (\<lambda>fs (d, x). set_field d x fs) fs ws"
  have step: "field_at (foldl (\<lambda>fs (d, x). set_field d x fs) fs (ws @ [w])) d' =
      (if d' = d then map_option (\<lambda>e. e\<lparr>fld_value := JStr x\<rparr>) (field_at ?fs d')
       else field_at ?fs d')"
    by (simp add: w field_at_set_field)
  show ?case
    unfolding step snoc.IH
    by (cases "field_at fs d'")
       (simp_all add: w option.map_comp comp_def split: option.splits)
qed

lemma change_writes_iff:
  "(d, x) \<in> set (change_writes sanitize h changes) \<longleftrightarrow>
     (\<exists>c b. (c, b) \<in> set changes \<and> d \<in> set (targets_of h c) \<and> x = pushed_value sanitize b c)"
  by (auto simp: change_writes_def)

section \<open>Validation leaves the portlets alone\<close>

lemma check_value_portlet:
  "check_value g kl (c, d, a) = Inr (c', d', a') \<Longrightarrow> portlet_enabled a' = portlet_enabled a"
  by (cases kl) (auto simp: check_value_def highlight_def Let_def split: if_splits option.splits)

lemma check_values_portlet:
  "check_values g kls (c, d, a) = (err, c', d', a') \<Longrightarrow> portlet_enabled a' = portlet_enabled a"
proof (induction kls arbitrary: c d a)
  case Nil
  then show ?case by simp
next
  case (Cons kl kls)
  show ?case
  proof (cases "check_value g kl (c, d, a)")
    case (Inl e)
    with Cons.prems show ?thesis by simp
  next
    case (Inr st)
    obtain c1 d1 a1 where st: "st = (c1, d1, a1)" by (cases st)
    from Inr st Cons.prems have "check_values g kls (c1, d1, a1) = (err, c', d', a')" by simp
    from Cons.IH[OF this] check_value_portlet[OF Inr[unfolded st]] show ?thesis by simp
  qed
qed

lemma check_forms_portlet:
  "check_forms ss fs (c, d) = (err, fs', c', d') \<Longrightarrow>
     map (\<lambda>(k, a). (k, portlet_enabled a)) fs' = map (\<lambda>(k, a). (k, portlet_enabled a)) fs"
proof (induction fs arbitrary: c d fs' c' d' err)
  case Nil
  then show ?case by simp
next
  case (Cons p fs)
  obtain e a where p: "p = (e, a)" by (cases p)
  show ?case
  proof (cases "map_of ss e")
    case None
    with Cons.prems p show ?thesis by auto
  next
    case (Some g)
    obtain er c1 d1 a1 where cv: "check_values g (create a)
        (c\<lparr>r_parameters := (r_parameters c)(step_id g \<mapsto> Map.empty)\<rparr>, d, a\<lparr>highlighted := []\<rparr>)
          = (er, c1, d1, a1)"
      by (metis prod_cases4)
    from check_values_portlet[OF cv] have pa: "portlet_enabled a1 = portlet_enabled a" by simp
    show ?thesis
    proof (cases er)
      case (Some x)
      with Cons.prems p \<open>map_of ss e = Some g\<close> cv pa show ?thesis by auto
    next
      case None
      obtain er2 r2 c2 d2 where cf: "check_forms ss fs (c1, d1) = (er2, r2, c2, d2)"
        by (metis prod_cases4)
      from Cons.IH[OF cf] Cons.prems p \<open>map_of ss e = Some g\<close> cv pa None cf
      show ?thesis by auto
    qed
  qed
qed

section \<open>Claims about the change handler\<close>

text \<open>C7.  On a change event of the parameter form, for every parameter \<open>c\<close> of the
  change set with the new value \<open>b\<close>, and for every target field \<open>d\<close> recorded for that
  parameter, the handler calls \<^verbatim>\<open>d.value\<close> with the sanitised new value, or with the
  parameter's own name when the sanitised value is empty.  When no field is written
  twice by the event, the field holds that value afterwards.\<close>

theorem onchange_pushes_to_every_target:
  assumes "(c, b) \<in> set changes" and "d \<in> set (targets_of (wp_targets v) c)"
  shows "(d, if sanitize b = [] then c else sanitize b)
           \<in> set (change_writes sanitize (wp_targets v) changes)
         \<and> (distinct (map fst (change_writes sanitize (wp_targets v) changes)) \<longrightarrow>
              field_at (forms (onchange sanitize changes v)) d =
                map_option (\<lambda>e. e\<lparr>fld_value := JStr (if sanitize b = [] then c else sanitize b)\<rparr>)
                  (field_at (forms v) d))"
proof -
  let ?x = "if sanitize b = [] then c else sanitize b"
  let ?ws = "change_writes sanitize (wp_targets v) changes"
  have x: "?x = pushed_value sanitize b c" by (simp add: pushed_value_def)
  have mem: "(d, ?x) \<in> set ?ws"
    unfolding x change_writes_iff using assms by blast
  have "field_at (forms (onchange sanitize changes v)) d =
          map_option (\<lambda>e. e\<lparr>fld_value := JStr ?x\<rparr>) (field_at (forms v) d)"
    if dist: "distinct (map fst ?ws)"
  proof -
    from dist mem have "map_of (rev ?ws) d = Some ?x"
      by (simp add: map_of_eq_Some_iff rev_map[symmetric])
    then show ?thesis
      by (simp add: onchange_def field_at_writes)
  qed
  with mem show ?thesis by blast
qed

theorem onchange_pushes_to_every_target_witness:
  "\<not> isl (initialize escape_html example_workflow)
   \<and> (''color'', JStr ''red'') \<in> set [(''color'', JStr ''red'')]
   \<and> (11, ''u2'') \<in> set (targets_of (wp_targets (projr (initialize escape_html example_workflow))) ''color'')
   \<and> distinct (map fst (change_writes escape_html
         (wp_targets (projr (initialize escape_html example_workflow))) [(''color'', JStr ''red'')]))
   \<and> map_option fld_value (field_at (forms (onchange escape_html [(''color'', JStr ''red'')]
         (projr (initialize escape_html example_workflow)))) (11, ''u2'')) = Some (JStr ''red'')"
proof -
  let ?v = "projr (initialize escape_html example_workflow)"
  have a: "\<not> isl (initialize escape_html example_workflow)" by code_simp
  have h1: "(''color'', JStr ''red'') \<in> set [(''color'', JStr ''red'')]" by simp
  have h2: "(11, ''u2'') \<in> set (targets_of (wp_targets ?v) ''color'')" by code_simp
  have h3: "distinct (map fst (change_writes escape_html (wp_targets ?v) [(''color'', JStr ''red'')]))"
    by code_simp
  have e: "escape_html (JStr ''red'') = ''red''" by code_simp
  have f: "map_option fld_value (field_at (forms ?v) (11, ''u2'')) = Some (JStr ''color'')" by code_simp
  from onchange_pushes_to_every_target[OF h1 h2, of escape_html] h3
  have "field_at (forms (onchange escape_html [(''color'', JStr ''red'')] ?v)) (11, ''u2'') =
      map_option (\<lambda>e. e\<lparr>fld_value := JStr ''red''\<rparr>) (field_at (forms ?v) (11, ''u2''))"
    by (simp add: e)
  with f have "map_option fld_value (field_at (forms (onchange escape_html [(''color'', JStr ''red'')] ?v)) (11, ''u2'')) = Some (JStr ''red'')"
    by (cases "field_at (forms ?v) (11, ''u2'')") auto
  with a h1 h2 h3 show ?thesis by blast
qed

section \<open>Claims about the enable and disable routine\<close>

lemma check_value_error: "check_value g kl st = Inl e \<Longrightarrow> e = TypeError"
  by (cases kl; cases st)
     (auto simp: check_value_def Let_def split: if_splits option.splits)

lemma check_values_error: "check_values g kls st = (Some e, st') \<Longrightarrow> e = TypeError"
proof (induction kls arbitrary: st)
  case Nil
  then show ?case by simp
next
  case (Cons kl kls)
  then show ?case
    by (cases "check_value g kl st") (auto dest: check_value_error)
qed

lemma check_forms_error: "check_forms ss fs (c, d) = (Some e, fs', c', d') \<Longrightarrow> e = TypeError"
proof (induction fs arbitrary: c d fs' c' d')
  case Nil
  then show ?case by simp
next
  case (Cons p fs)
  obtain k a where p: "p = (k, a)" by (cases p)
  show ?case
  proof (cases "map_of ss k")
    case None
    with Cons.prems p show ?thesis by simp
  next
    case (Some g)
    obtain er c1 d1 a1 where cv: "check_values g (create a)
        (c\<lparr>r_parameters := (r_parameters c)(step_id g \<mapsto> Map.empty)\<rparr>, d, a\<lparr>highlighted := []\<rparr>)
          = (er, c1, d1, a1)"
      by (metis prod_cases4)
    show ?thesis
    proof (cases er)
      case (Some x)
      with Cons.prems p \<open>map_of ss k = Some g\<close> cv check_values_error[of g _ _ x] show ?thesis
        by auto
    next
      case None
      obtain er2 r2 c2 d2 where cf: "check_forms ss fs (c1, d1) = (er2, r2, c2, d2)"
        by (metis prod_cases4)
      with Cons.prems p \<open>map_of ss k = Some g\<close> cv None have "er2 = Some e" by simp
      with cf Cons.IH show ?thesis by blast
    qed
  qed
qed

lemma enabled_null:
  "history_form v = None \<Longrightarrow> enabled a v = (Some TypeError, v\<lparr>btn_waiting := \<not> a\<rparr>)"
  by (simp add: enabled_def)

lemma execute_null:
  assumes "history_form u = None"
  shows "fst (execute u) = Some TypeError
       \<and> history_form (snd (execute u)) = None
       \<and> requests (snd (execute u)) = requests u
       \<and> map (\<lambda>(k, a). (k, portlet_enabled a)) (forms (snd (execute u)))
           = map (\<lambda>(k, a). (k, portlet_enabled a)) (forms u)"
proof -
  obtain er fs c d where va: "validate u = (er, fs, c, d)" by (metis prod_cases4)
  then have cf: "check_forms (steps u) (forms u) (empty_request, True) = (er, fs, c, d)"
    by (simp add: validate_def)
  note pe = check_forms_portlet[OF cf]
  show ?thesis
  proof (cases er)
    case None
    with va pe assms show ?thesis
      by (simp add: execute_def enabled_def Let_def)
  next
    case (Some e)
    with cf have "e = TypeError" by (blast dest: check_forms_error)
    with Some va pe assms show ?thesis
      by (simp add: execute_def)
  qed
qed

text \<open>C10.  For a workflow descriptor with a pre-selected \<^verbatim>\<open>history_id\<close> the history
  form is never created: it is \<^verbatim>\<open>null\<close> in the view that \<^verbatim>\<open>initialize\<close> builds.  In
  every state of the view with a \<^verbatim>\<open>null\<close> history form an execute attempt raises a type
  error; the history form is still \<^verbatim>\<open>null\<close> afterwards, no request has been handed to
  the transport, and no portlet of a step form has been disabled or enabled.\<close>

theorem preselected_history_execute_raises_type_error:
  assumes "truthy (wf_history_id f)" and "initialize sanitize f = Inr v"
  shows "history_form v = None
       \<and> (\<forall>u. history_form u = None \<longrightarrow>
             fst (execute u) = Some TypeError
           \<and> history_form (snd (execute u)) = None
           \<and> requests (snd (execute u)) = requests u
           \<and> map (\<lambda>(k, a). (k, portlet_enabled a)) (forms (snd (execute u)))
               = map (\<lambda>(k, a). (k, portlet_enabled a)) (forms u))"
proof -
  from assms have "history_form v = None"
    by (auto simp: initialize_def Let_def split: prod.splits sum.splits)
  with execute_null show ?thesis by blast
qed

theorem preselected_history_execute_raises_type_error_witness:
  "truthy (wf_history_id example_workflow_in_history)
   \<and> \<not> isl (initialize escape_html example_workflow_in_history)
   \<and> history_form (projr (initialize escape_html example_workflow_in_history)) = None
   \<and> fst (execute (projr (initialize escape_html example_workflow_in_history))) = Some TypeError"
proof -
  let ?i = "initialize escape_html example_workflow_in_history"
  have h1: "truthy (wf_history_id example_workflow_in_history)" by code_simp
  have h2: "\<not> isl ?i" by code_simp
  then have h3: "?i = Inr (projr ?i)" by (cases ?i) auto
  from preselected_history_execute_raises_type_error[OF h1 h3] h1 h2
  show ?thesis by blast
qed

section \<open>Claims about the response\<close>

text \<open>C8.  An error response that names an offending field: the error callback raises a
  reference error before it maps or highlights any field, and the highlights of the
  step forms are what they were.\<close>

theorem error_response_with_field_detail:
  "on_error en (JObj [(''err_data'', JObj [(''input1'', JStr ''required'')])]) v
     = (Some ReferenceError, v)
   \<and> fst (deliver en (Failure (JObj [(''err_data'', JObj [(''input1'', JStr ''required'')])])) v)
     = Some ReferenceError
   \<and> map (\<lambda>(k, a). (k, highlighted a))
       (forms (snd (deliver en (Failure (JObj [(''err_data'', JObj [(''input1'', JStr ''required'')])])) v)))
     = map (\<lambda>(k, a). (k, highlighted a)) (forms v)"
  by (auto simp: on_error_def deliver_def enabled_def Let_def split: option.splits prod.splits)

section \<open>Portlets between initialisation and execution\<close>



lemma modify_portlet:
  assumes "\<And>a. portlet_enabled (g a) = portlet_enabled a"
  shows "map (\<lambda>(k, a). (k, portlet_enabled a)) (modify k g fs)
           = map (\<lambda>(k, a). (k, portlet_enabled a)) fs"
  by (induction fs) (auto simp: assms)

lemma set_field_portlet:
  "map (\<lambda>(k, a). (k, portlet_enabled a)) (set_field d x fs)
     = map (\<lambda>(k, a). (k, portlet_enabled a)) fs"
  by (simp add: set_field_def modify_portlet)

lemma edit_field_portlet:
  "map (\<lambda>(k, a). (k, portlet_enabled a)) (edit_field d x fs)
     = map (\<lambda>(k, a). (k, portlet_enabled a)) fs"
  by (simp add: edit_field_def modify_portlet)

lemma writes_portlet:
  "map (\<lambda>(k, a). (k, portlet_enabled a)) (foldl (\<lambda>fs (d, x). set_field d x fs) fs ws)
     = map (\<lambda>(k, a). (k, portlet_enabled a)) fs"
  by (induction ws arbitrary: fs) (auto simp: set_field_portlet)


lemma set_obj_put: "set (obj_put k v xs) \<subseteq> insert (k, v) (set xs)"
  by (induction xs) (auto split: if_splits)



lemma set_modify:
  "(k', v') \<in> set (modify k g xs) \<Longrightarrow>
     (k', v') \<in> set xs \<or> (\<exists>v. (k, v) \<in> set xs \<and> k' = k \<and> v' = g v)"
proof (induction xs)
  case Nil
  then show ?case by simp
next
  case (Cons p xs)
  obtain a b where p: "p = (a, b)" by (cases p)
  show ?case
  proof (cases "k = a")
    case True
    with Cons.prems p show ?thesis by auto
  next
    case False
    with Cons.prems p have "(k', v') = (a, b) \<or> (k', v') \<in> set (modify k g xs)" by auto
    with Cons.IH p show ?thesis by auto
  qed
qed




lemma layout_forms_set:
  "layout_forms fs = Inr fs' \<Longrightarrow> map (\<lambda>(k, a). (k, Some a)) fs' = fs"
  by (induction fs arbitrary: fs' rule: layout_forms.induct) (auto split: sum.splits)







section \<open>The validation loop in closed form\<close>

lemma input_list_highlighted [simp]: "input_list (a\<lparr>highlighted := h\<rparr>) = input_list a"
  by simp

lemma match_highlighted [simp]: "match (a\<lparr>highlighted := h\<rparr>) k = match a k"
  by (simp add: match_def)

lemma tool_accepted_highlighted [simp]:
  "tool_accepted (a\<lparr>highlighted := h\<rparr>) = tool_accepted a"
  by (simp add: tool_accepted_def fun_eq_iff)

lemma create_highlighted [simp]: "create (a\<lparr>highlighted := h\<rparr>) = create a"
  by (simp add: create_def field_value_def)

lemma field_valid_highlighted [simp]:
  "field_valid g (a\<lparr>highlighted := h\<rparr>) = field_valid g a"
  by (simp add: field_valid_def fun_eq_iff)

lemma check_values_tool:
  assumes "\<not> is_data_input (step_type g)"
    and "check_values g kls (c, d, a) = (None, c', d', a')"
    and "r_parameters c (step_id g) = Some sub"
  shows "r_parameters c' = (r_parameters c)(step_id g \<mapsto>
             sub ++ map_of (rev (filter (tool_accepted a) kls)))
       \<and> r_inputs c' = r_inputs c
       \<and> d' = (d \<and> list_all (tool_accepted a) kls)
       \<and> a' = a\<lparr>highlighted := highlighted a
                  @ map (\<lambda>kl. match a (fst kl)) (filter (\<lambda>kl. \<not> tool_accepted a kl) kls)\<rparr>
       \<and> list_all (\<lambda>kl. map_of (input_list a) (match a (fst kl)) \<noteq> None) kls"
  using assms(2,3)
proof (induction kls arbitrary: c d a sub)
  case Nil
  then show ?case by (auto simp: fun_eq_iff)
next
  case (Cons kl kls)
  obtain k l where kl: "kl = (k, l)" by (cases kl)
  from Cons.prems(1) obtain c1 d1 a1 where
    1: "check_value g (k, l) (c, d, a) = Inr (c1, d1, a1)"
    and 2: "check_values g kls (c1, d1, a1) = (None, c', d', a')"
    by (auto simp: kl split: sum.splits)
  from 1 assms(1) obtain n where n: "map_of (input_list a) (match a k) = Some n"
    by (auto simp: check_value_def Let_def split: option.splits)
  show ?case
  proof (cases "accepted n l")
    case True
    with 1 n assms(1) Cons.prems(2)
    have c1: "c1 = c\<lparr>r_parameters := (r_parameters c)(step_id g \<mapsto> sub(k \<mapsto> l))\<rparr>"
      and d1: "d1 = d" and a1: "a1 = a"
      by (auto simp: check_value_def Let_def)
    have s1: "r_parameters c1 (step_id g) = Some (sub(k \<mapsto> l))" by (simp add: c1)
    have ta: "tool_accepted a (k, l)" using n True by (simp add: tool_accepted_def)
    from Cons.IH[OF 2 s1] ta n show ?thesis
      by (auto simp: kl c1 d1 a1 fun_eq_iff map_add_def split: option.splits)
  next
    case False
    with 1 n assms(1) Cons.prems(2)
    have c1: "c1 = c" and d1: "d1 = False" and a1: "a1 = highlight (match a k) a"
      by (auto simp: check_value_def Let_def)
    have ta: "\<not> tool_accepted a (k, l)" using n False by (simp add: tool_accepted_def)
    from Cons.prems(2) have s1: "r_parameters c1 (step_id g) = Some sub" by (simp add: c1)
    from Cons.IH[OF 2 s1] ta n show ?thesis
      by (auto simp: kl c1 d1 a1 highlight_def fun_eq_iff)
  qed
qed

lemma check_values_data:
  assumes "is_data_input (step_type g)"
    and "check_values g kls (c, d, a) = (er, c', d', a')"
  shows "er = None
       \<and> r_parameters c' = r_parameters c
       \<and> r_inputs c' =
           (case filter (\<lambda>kl. has_values (snd kl)) kls of
              [] \<Rightarrow> r_inputs c
            | x # xs \<Rightarrow> (r_inputs c)(order_index g \<mapsto> first_value (snd (last (x # xs)))))
       \<and> d' = (d \<and> list_all (\<lambda>kl. has_values (snd kl)) kls)
       \<and> a' = a\<lparr>highlighted := highlighted a
                  @ (if d then take 1 (map (\<lambda>kl. match a (fst kl))
                                        (filter (\<lambda>kl. \<not> has_values (snd kl)) kls))
                     else [])\<rparr>"
  using assms(2)
proof (induction kls arbitrary: c d a)
  case Nil
  then show ?case by simp
next
  case (Cons kl kls)
  obtain k l where kl: "kl = (k, l)" by (cases kl)
  show ?case
  proof (cases "has_values l")
    case True
    with assms(1) have 1: "check_value g (k, l) (c, d, a)
        = Inr (c\<lparr>r_inputs := (r_inputs c)(order_index g \<mapsto> first_value l)\<rparr>, d, a)"
      by (simp add: check_value_def Let_def first_value_def)
    with Cons.prems kl have 2: "check_values g kls
        (c\<lparr>r_inputs := (r_inputs c)(order_index g \<mapsto> first_value l)\<rparr>, d, a) = (er, c', d', a')"
      by simp
    from Cons.IH[OF 2] True show ?thesis
      by (auto simp: kl split: list.splits)
  next
    case False
    show ?thesis
    proof (cases d)
      case True
      with False assms(1) have 1: "check_value g (k, l) (c, d, a)
          = Inr (c, False, highlight (match a k) a)"
        by (simp add: check_value_def Let_def)
      with Cons.prems kl have 2: "check_values g kls (c, False, highlight (match a k) a)
          = (er, c', d', a')"
        by simp
      from Cons.IH[OF 2] False True show ?thesis
        by (auto simp: kl highlight_def split: list.splits)
    next
      case d: False
      with False assms(1) have 1: "check_value g (k, l) (c, d, a) = Inr (c, d, a)"
        by (simp add: check_value_def Let_def)
      with Cons.prems kl have 2: "check_values g kls (c, d, a) = (er, c', d', a')"
        by simp
      from Cons.IH[OF 2] False d show ?thesis
        by (auto simp: kl split: list.splits)
    qed
  qed
qed

lemma dom_case_list:
  "dom (case xs of [] \<Rightarrow> m | x # ys \<Rightarrow> m(k \<mapsto> f x ys)) = dom m \<union> (if xs = [] then {} else {k})"
  by (cases xs) auto

lemma check_form:
  assumes "check_values g (create a)
             (c\<lparr>r_parameters := (r_parameters c)(step_id g \<mapsto> Map.empty)\<rparr>, d,
              a\<lparr>highlighted := []\<rparr>) = (None, c', d', a')"
  shows "r_parameters c' = (r_parameters c)(step_id g \<mapsto> form_parameters g a)
       \<and> d' = (d \<and> form_valid g a)
       \<and> a' = a\<lparr>highlighted := form_highlights g a d\<rparr>
       \<and> dom (r_inputs c') = dom (r_inputs c) \<union> (if form_selected g a then {order_index g} else {})
       \<and> (\<not> is_data_input (step_type g) \<longrightarrow>
            list_all (\<lambda>kl. map_of (input_list a) (match a (fst kl)) \<noteq> None) (create a))"
proof (cases "is_data_input (step_type g)")
  case True
  then have fv: "field_valid g a = (\<lambda>kl. has_values (snd kl))"
    by (simp add: field_valid_def fun_eq_iff)
  from check_values_data[OF True assms] show ?thesis
    by (simp add: form_parameters_def form_valid_def form_highlights_def form_selected_def
          True fv Let_def dom_case_list filter_empty_conv list_ex_iff)
next
  case False
  then have fv: "field_valid g a = tool_accepted a"
    by (simp add: field_valid_def fun_eq_iff)
  have "r_parameters (c\<lparr>r_parameters := (r_parameters c)(step_id g \<mapsto> Map.empty)\<rparr>) (step_id g)
      = Some Map.empty" by simp
  from check_values_tool[OF False assms this] show ?thesis
    by (simp add: form_parameters_def form_valid_def form_highlights_def form_selected_def
          False fv Let_def)
qed

lemma check_forms_Cons:
  assumes "check_forms ss ((e, a) # rest) (c, d) = (None, fs', c', d')"
  obtains g c1 d1 a1 rest' where "map_of ss e = Some g"
    and "check_values g (create a)
           (c\<lparr>r_parameters := (r_parameters c)(step_id g \<mapsto> Map.empty)\<rparr>, d,
            a\<lparr>highlighted := []\<rparr>) = (None, c1, d1, a1)"
    and "check_forms ss rest (c1, d1) = (None, rest', c', d')"
    and "fs' = (e, a1) # rest'"
  using assms
  by (auto split: option.splits prod.splits)

lemma check_forms_outcome:
  assumes "check_forms ss fs (c, d) = (None, fs', c', d')" and "keyed ss fs"
  shows "r_parameters c' =
           (\<lambda>h. case map_of fs h of
                  Some a \<Rightarrow> Some (form_parameters (the (map_of ss h)) a)
                | None \<Rightarrow> r_parameters c h)
       \<and> d' = (d \<and> (\<forall>(e, a) \<in> set fs. form_valid (the (map_of ss e)) a))
       \<and> dom (r_inputs c') = dom (r_inputs c)
            \<union> {order_index (the (map_of ss e)) | e a.
                 (e, a) \<in> set fs \<and> form_selected (the (map_of ss e)) a}
       \<and> map fst fs' = map fst fs"
  using assms
proof (induction fs arbitrary: c d fs')
  case Nil
  then show ?case by simp
next
  case (Cons p fs)
  obtain e a where p: "p = (e, a)" by (cases p)
  from Cons.prems(1)[unfolded p] obtain g c1 d1 a1 rest' where
    g: "map_of ss e = Some g"
    and cv: "check_values g (create a)
           (c\<lparr>r_parameters := (r_parameters c)(step_id g \<mapsto> Map.empty)\<rparr>, d,
            a\<lparr>highlighted := []\<rparr>) = (None, c1, d1, a1)"
    and cf: "check_forms ss fs (c1, d1) = (None, rest', c', d')"
    and fs': "fs' = (e, a1) # rest'"
    by (rule check_forms_Cons)
  from Cons.prems(2) p g have id: "step_id g = e" and ne: "e \<notin> fst ` set fs"
    and k: "keyed ss fs"
    by (auto simp: keyed_def)
  from check_form[OF cv] have
    fP: "r_parameters c1 = (r_parameters c)(step_id g \<mapsto> form_parameters g a)"
    and fD: "d1 = (d \<and> form_valid g a)"
    and fI: "dom (r_inputs c1) = dom (r_inputs c)
               \<union> (if form_selected g a then {order_index g} else {})"
    by simp_all
  from Cons.IH[OF cf k] have
    iP: "r_parameters c' =
           (\<lambda>h. case map_of fs h of
                  Some a \<Rightarrow> Some (form_parameters (the (map_of ss h)) a)
                | None \<Rightarrow> r_parameters c1 h)"
    and iD: "d' = (d1 \<and> (\<forall>(e, a) \<in> set fs. form_valid (the (map_of ss e)) a))"
    and iI: "dom (r_inputs c') = dom (r_inputs c1)
            \<union> {order_index (the (map_of ss e)) | e a.
                 (e, a) \<in> set fs \<and> form_selected (the (map_of ss e)) a}"
    and iK: "map fst rest' = map fst fs"
    by simp_all
  from ne have nm: "map_of fs e = None" by (simp add: map_of_eq_None_iff)
  have P: "r_parameters c' =
           (\<lambda>h. case map_of (p # fs) h of
                  Some a \<Rightarrow> Some (form_parameters (the (map_of ss h)) a)
                | None \<Rightarrow> r_parameters c h)"
    unfolding iP fP using nm by (auto simp: p g id fun_eq_iff split: option.splits)
  have D: "d' = (d \<and> (\<forall>(e, a) \<in> set (p # fs). form_valid (the (map_of ss e)) a))"
    unfolding iD fD by (simp add: p g)
  have S: "{order_index (the (map_of ss e')) | e' a'.
              (e', a') \<in> set (p # fs) \<and> form_selected (the (map_of ss e')) a'}
         = (if form_selected g a then {order_index g} else {})
           \<union> {order_index (the (map_of ss e')) | e' a'.
                (e', a') \<in> set fs \<and> form_selected (the (map_of ss e')) a'}"
    using g by (auto simp: p) (metis option.sel)
  have I: "dom (r_inputs c') = dom (r_inputs c)
            \<union> {order_index (the (map_of ss e)) | e a.
                 (e, a) \<in> set (p # fs) \<and> form_selected (the (map_of ss e)) a}"
    unfolding iI fI S by (simp add: Un_assoc)
  have K: "map fst fs' = map fst (p # fs)"
    using iK by (simp add: p fs')
  from P D I K show ?case by blast
qed

lemma check_forms_highlights:
  assumes "check_forms ss (pre @ (e, a) # post) (c, d) = (None, fs', c', d')"
    and "map_of ss e = Some g"
  shows "fs' ! length pre =
           (e, a\<lparr>highlighted :=
                   form_highlights g a
                     (d \<and> (\<forall>(e', a') \<in> set pre. form_valid (the (map_of ss e')) a'))\<rparr>)
       \<and> (\<not> is_data_input (step_type g) \<longrightarrow>
            list_all (\<lambda>kl. map_of (input_list a) (match a (fst kl)) \<noteq> None) (create a))"
  using assms(1)
proof (induction pre arbitrary: c d fs')
  case Nil
  from Nil have "check_forms ss ((e, a) # post) (c, d) = (None, fs', c', d')"
    by (simp only: append_Nil)
  then obtain g' c1 d1 a1 rest' where
    "map_of ss e = Some g'"
    and cv: "check_values g' (create a)
           (c\<lparr>r_parameters := (r_parameters c)(step_id g' \<mapsto> Map.empty)\<rparr>, d,
            a\<lparr>highlighted := []\<rparr>) = (None, c1, d1, a1)"
    and fs': "fs' = (e, a1) # rest'"
    by (rule check_forms_Cons)
  with assms(2) have "g' = g" by simp
  with check_form[OF cv] fs' show ?case by simp
next
  case (Cons p pre)
  obtain e0 a0 where p: "p = (e0, a0)" by (cases p)
  from Cons.prems have "check_forms ss ((e0, a0) # pre @ (e, a) # post) (c, d) = (None, fs', c', d')"
    by (simp only: p append_Cons)
  then obtain g0 c1 d1 a1 rest' where
    g0: "map_of ss e0 = Some g0"
    and cv: "check_values g0 (create a0)
           (c\<lparr>r_parameters := (r_parameters c)(step_id g0 \<mapsto> Map.empty)\<rparr>, d,
            a0\<lparr>highlighted := []\<rparr>) = (None, c1, d1, a1)"
    and cf: "check_forms ss (pre @ (e, a) # post) (c1, d1) = (None, rest', c', d')"
    and fs': "fs' = (e0, a1) # rest'"
    by (rule check_forms_Cons)
  from check_form[OF cv] have d1: "d1 = (d \<and> form_valid g0 a0)" by simp
  from Cons.IH[OF cf] show ?case
    by (simp add: fs' p g0 d1 conj_assoc)
qed

section \<open>The registries of a reachable view\<close>

lemma obj_put_keys:
  "map fst xs = map fst ys \<Longrightarrow> map fst (obj_put k v xs) = map fst (obj_put k w ys)"
proof (induction xs arbitrary: ys)
  case Nil
  then show ?case by simp
next
  case (Cons x xs)
  then obtain y ys' where ys: "ys = y # ys'" by (cases ys) auto
  obtain kx vx where x: "x = (kx, vx)" by (cases x)
  obtain ky vy where y: "y = (ky, vy)" by (cases y)
  from Cons.prems ys x y have "kx = ky" "map fst xs = map fst ys'" by auto
  with Cons.IH[of ys'] show ?case by (simp add: ys x y)
qed

lemma obj_put_sorted:
  "sorted_wrt (<) (map fst xs) \<Longrightarrow> sorted_wrt (<) (map fst (obj_put k v xs))"
proof (induction xs)
  case Nil
  then show ?case by simp
next
  case (Cons x xs)
  obtain kx vx where x: "x = (kx, vx)" by (cases x)
  from Cons.prems x have s: "sorted_wrt (<) (map fst xs)" and lt: "\<forall>y \<in> set xs. kx < fst y"
    by auto
  have "\<forall>y \<in> set (obj_put k v xs). y = (k, v) \<or> y \<in> set xs"
    using set_obj_put[of k v xs] by auto
  with lt have "\<not> k < kx \<Longrightarrow> k \<noteq> kx \<Longrightarrow> \<forall>y \<in> set (obj_put k v xs). kx < fst y"
    by auto
  with Cons.IH[OF s] lt s show ?case
    by (auto simp: x)
qed

lemma prepare_step_id: "prepare_step f b0 = (h, b) \<Longrightarrow> step_id b = step_id b0"
  by (auto simp: prepare_step_def merge_defaults_def normalize_tool_def Let_def split: if_splits)

lemma prepare_steps_prepared:
  "prepared fs ss \<Longrightarrow> prepare_steps f bs (fs, ss) = (fs', ss') \<Longrightarrow> prepared fs' ss'"
proof (induction bs arbitrary: f fs ss)
  case Nil
  then show ?case by simp
next
  case (Cons b0 bs)
  obtain h b where pb: "prepare_step f b0 = (h, b)" by (cases "prepare_step f b0")
  from Cons.prems(1) have "prepared (obj_put (step_id b) h fs) (obj_put (step_id b) b ss)"
    using set_obj_put[of "step_id b" b ss] obj_put_keys[of ss fs "step_id b" b h]
    by (auto simp: prepared_def obj_put_sorted)
  from Cons.IH[OF this] Cons.prems(2) pb show ?case by simp
qed

lemma bind_input_keys:
  "bind_input sanitize c b st = Inr st' \<Longrightarrow> map fst (b_forms st') = map fst (b_forms st)"
  by (auto simp: bind_input_def Let_def map_fst_modify split: if_splits option.splits prod.splits)

lemma bind_inputs_keys:
  "bind_inputs sanitize c bs st = Inr st' \<Longrightarrow> map fst (b_forms st') = map fst (b_forms st)"
proof (induction bs arbitrary: st)
  case Nil
  then show ?case by simp
next
  case (Cons b bs)
  from Cons.prems obtain st1 where 1: "bind_input sanitize c b st = Inr st1"
    and 2: "bind_inputs sanitize c bs st1 = Inr st'"
    by (auto split: sum.splits)
  from Cons.IH[OF 2] bind_input_keys[OF 1] show ?case by simp
qed

lemma bind_steps_keys:
  "bind_steps sanitize ss st = Inr st' \<Longrightarrow> map fst (b_forms st') = map fst (b_forms st)"
proof (induction ss arbitrary: st)
  case Nil
  then show ?case by simp
next
  case (Cons p ss)
  obtain c b where p: "p = (c, b)" by (cases p)
  from Cons.prems p obtain st1 where 1: "bind_inputs sanitize c (top_level (inputs b)) st = Inr st1"
    and 2: "bind_steps sanitize ss st1 = Inr st'"
    by (auto split: sum.splits)
  from Cons.IH[OF 2] bind_inputs_keys[OF 1] show ?case by simp
qed

lemma layout_forms_keys: "layout_forms fs = Inr fs' \<Longrightarrow> map fst fs' = map fst fs"
  by (drule layout_forms_set) (auto simp: comp_def case_prod_unfold)

lemma initialize_parts:
  assumes "initialize sanitize f = Inr v"
  obtains fs st where "prepare_steps 0 (wf_steps f) ([], []) = (fs, steps v)"
    and "bind_steps sanitize (steps v)
           \<lparr>b_forms = fs, b_targets = [], b_params = [], b_count = 0\<rparr> = Inr st"
    and "layout_forms (b_forms st) = Inr (forms v)"
    and "wp_targets v = b_targets st" and "wp_inputs v = b_params st"
  using assms
  by (auto simp: initialize_def split: prod.splits sum.splits)

lemma initialize_registry_ok:
  assumes "initialize sanitize f = Inr v"
  shows "registry_ok v"
proof -
  from assms obtain fs st where ps: "prepare_steps 0 (wf_steps f) ([], []) = (fs, steps v)"
    and bs: "bind_steps sanitize (steps v)
           \<lparr>b_forms = fs, b_targets = [], b_params = [], b_count = 0\<rparr> = Inr st"
    and lf: "layout_forms (b_forms st) = Inr (forms v)"
    by (rule initialize_parts)
  have "prepared [] []" by (simp add: prepared_def)
  from prepare_steps_prepared[OF this ps] have p: "prepared fs (steps v)" .
  from bind_steps_keys[OF bs] layout_forms_keys[OF lf] have "map fst (forms v) = map fst fs"
    by simp
  with p show ?thesis by (simp add: registry_ok_def prepared_def)
qed

lemma portlet_keys:
  "map (\<lambda>(k, a). (k, portlet_enabled a)) fs' = map (\<lambda>(k, a). (k, portlet_enabled a)) fs
     \<Longrightarrow> map fst fs' = map fst fs"
proof -
  assume "map (\<lambda>(k, a). (k, portlet_enabled a)) fs' = map (\<lambda>(k, a). (k, portlet_enabled a)) fs"
  then have "map fst (map (\<lambda>(k, a). (k, portlet_enabled a)) fs')
           = map fst (map (\<lambda>(k, a). (k, portlet_enabled a)) fs)" by simp
  then show ?thesis by (simp add: comp_def case_prod_unfold)
qed

lemma execute_keys: "map fst (forms (snd (execute v))) = map fst (forms v)"
proof -
  obtain er fs c d where va: "validate v = (er, fs, c, d)" by (metis prod_cases4)
  then have "check_forms (steps v) (forms v) (empty_request, True) = (er, fs, c, d)"
    by (simp add: validate_def)
  from portlet_keys[OF check_forms_portlet[OF this]] have k: "map fst fs = map fst (forms v)" .
  show ?thesis
    by (cases er; cases "history_form v")
       (auto simp: execute_def va enabled_def Let_def k comp_def case_prod_unfold)
qed

lemma execute_steps: "steps (snd (execute v)) = steps v"
proof -
  obtain er fs c d where va: "validate v = (er, fs, c, d)" by (metis prod_cases4)
  show ?thesis
    by (cases er; cases "history_form v")
       (auto simp: execute_def va enabled_def Let_def)
qed

lemma deliver_keys: "map fst (forms (snd (deliver en r v))) = map fst (forms v)"
  by (cases r; cases "history_form v")
     (auto simp: deliver_def on_success_def on_error_def enabled_def Let_def comp_def
           case_prod_unfold split: prod.splits)

lemma deliver_steps: "steps (snd (deliver en r v)) = steps v"
  by (cases r; cases "history_form v")
     (auto simp: deliver_def on_success_def on_error_def enabled_def Let_def split: prod.splits)

lemma reachable_registry_ok:
  assumes "reachable sanitize f v"
  shows "registry_ok v"
  using assms
proof (induction rule: reachable.induct)
  case (built v)
  then show ?case by (rule initialize_registry_ok)
next
  case (attempt v)
  then show ?case by (simp add: registry_ok_def execute_keys execute_steps)
next
  case (response v en r)
  then show ?case by (simp add: registry_ok_def deliver_keys deliver_steps)
next
  case (change v changes)
  then show ?case
    by (simp add: registry_ok_def onchange_def portlet_keys[OF writes_portlet])
next
  case (edit v d x)
  then show ?case
    by (simp add: registry_ok_def portlet_keys[OF edit_field_portlet])
qed

lemma registry_ok_keyed: "registry_ok v \<Longrightarrow> keyed (steps v) (forms v)"
proof -
  assume ok: "registry_ok v"
  then have d: "distinct (map fst (forms v))" and ds: "distinct (map fst (steps v))"
    by (auto simp: registry_ok_def strict_sorted_iff)
  have "\<exists>g. map_of (steps v) e = Some g \<and> step_id g = e" if "(e, a) \<in> set (forms v)" for e a
  proof -
    from that have "e \<in> fst ` set (forms v)" by force
    with ok have "e \<in> fst ` set (steps v)" by (metis registry_ok_def set_map)
    then obtain g where g: "(e, g) \<in> set (steps v)" by auto
    with ds have "map_of (steps v) e = Some g" by simp
    with g ok show ?thesis by (auto simp: registry_ok_def)
  qed
  with d show ?thesis by (auto simp: keyed_def)
qed

section \<open>Validation raises no exception in a reachable view\<close>

text \<open>The validation loop raises a \<^verbatim>\<open>TypeError\<close> only where a key of the flat dictionary
  has no input definition (the read of \<^verbatim>\<open>n.optional\<close>) or a step has no form.  The forms
  built by \<open>initialize\<close> pair every key with a definition, and nothing the view does
  afterwards changes the dictionary or the definitions of a form.\<close>

lemma make_form_wired: "wired (make_form title ins)"
proof -
  let ?a = "make_form title ins"
  have "map_of (input_list ?a) (match ?a k) \<noteq> None" if km: "(k, m) \<in> set (flat_dict ?a)" for k m
  proof -
    from km have "k \<in> fst ` set (flat_dict ?a)" by force
    then obtain m' where m': "map_of (flat_dict ?a) k = Some m'"
      by (cases "map_of (flat_dict ?a) k") (auto simp: map_of_eq_None_iff)
    then have "(k, m') \<in> set (flat_dict ?a)" by (rule map_of_SomeD)
    then have "m' \<in> fst ` set (input_list ?a)" by (force simp: make_form_def)
    then have "map_of (input_list ?a) m' \<noteq> None" by (simp only: map_of_eq_None_iff not_not)
    with m' show ?thesis by (simp add: match_def)
  qed
  then show ?thesis unfolding wired_def by blast
qed

lemma wired_cong:
  "flat_dict a' = flat_dict a \<Longrightarrow> input_list a' = input_list a \<Longrightarrow> wired a' = wired a"
  by (simp add: wired_def match_def)

lemma prepare_step_wired: "prepare_step f b0 = (Some a, b) \<Longrightarrow> wired a"
  by (auto simp: prepare_step_def make_form_wired Let_def split: if_splits)

lemma prepare_steps_wired:
  "opt_wired fs \<Longrightarrow> prepare_steps f bs (fs, ss) = (fs', ss') \<Longrightarrow> opt_wired fs'"
proof (induction bs arbitrary: f fs ss)
  case Nil
  then show ?case by simp
next
  case (Cons b0 bs)
  obtain h b where pb: "prepare_step f b0 = (h, b)" by (cases "prepare_step f b0")
  have "opt_wired (obj_put (step_id b) h fs)"
    unfolding opt_wired_def
  proof (intro allI impI)
    fix k a assume "(k, Some a) \<in> set (obj_put (step_id b) h fs)"
    with set_obj_put[of "step_id b" h fs] have "(k, Some a) = (step_id b, h) \<or> (k, Some a) \<in> set fs"
      by blast
    with pb Cons.prems(1) show "wired a"
      by (auto simp: opt_wired_def dest: prepare_step_wired)
  qed
  from Cons.IH[OF this] Cons.prems(2) pb show ?case by simp
qed

lemma bind_input_wired:
  assumes "opt_wired (b_forms st)" and "bind_input sanitize c b st = Inr st'"
  shows "opt_wired (b_forms st')"
proof (cases "is_placeholder (i_value b)")
  case False
  with assms show ?thesis by (simp add: bind_input_def)
next
  case True
  with assms(2) obtain frm frm' where frm: "map_of (b_forms st) c = Some (Some frm)"
    and fs': "b_forms st' = modify c (\<lambda>x. Some frm') (b_forms st)"
    and fd: "flat_dict frm' = flat_dict frm" and il: "input_list frm' = input_list frm"
    by (auto simp: bind_input_def Let_def split: if_splits option.splits prod.splits)
  from frm have "(c, Some frm) \<in> set (b_forms st)" by (rule map_of_SomeD)
  with assms(1) have "wired frm" by (simp add: opt_wired_def)
  with wired_cong[OF fd il] have w: "wired frm'" by simp
  show ?thesis
    unfolding opt_wired_def fs'
  proof (intro allI impI)
    fix e a assume "(e, Some a) \<in> set (modify c (\<lambda>x. Some frm') (b_forms st))"
    from set_modify[OF this] assms(1) w show "wired a"
      by (auto simp: opt_wired_def)
  qed
qed

lemma bind_inputs_wired:
  "opt_wired (b_forms st) \<Longrightarrow> bind_inputs sanitize c bs st = Inr st' \<Longrightarrow> opt_wired (b_forms st')"
proof (induction bs arbitrary: st)
  case Nil
  then show ?case by simp
next
  case (Cons b bs)
  from Cons.prems(2) obtain st1 where 1: "bind_input sanitize c b st = Inr st1"
    and 2: "bind_inputs sanitize c bs st1 = Inr st'"
    by (auto split: sum.splits)
  from Cons.IH[OF bind_input_wired[OF Cons.prems(1) 1] 2] show ?case .
qed

lemma bind_steps_wired:
  "opt_wired (b_forms st) \<Longrightarrow> bind_steps sanitize ss st = Inr st' \<Longrightarrow> opt_wired (b_forms st')"
proof (induction ss arbitrary: st)
  case Nil
  then show ?case by simp
next
  case (Cons p ss)
  obtain c b where p: "p = (c, b)" by (cases p)
  from Cons.prems(2) p obtain st1 where 1: "bind_inputs sanitize c (top_level (inputs b)) st = Inr st1"
    and 2: "bind_steps sanitize ss st1 = Inr st'"
    by (auto split: sum.splits)
  from Cons.IH[OF bind_inputs_wired[OF Cons.prems(1) 1] 2] show ?case .
qed

lemma layout_forms_wired:
  "opt_wired fs \<Longrightarrow> layout_forms fs = Inr fs' \<Longrightarrow> forms_wired fs'"
  by (drule layout_forms_set) (force simp: opt_wired_def forms_wired_def)

lemma initialize_wired:
  assumes "initialize sanitize f = Inr v"
  shows "forms_wired (forms v)"
proof -
  from assms obtain fs st where ps: "prepare_steps 0 (wf_steps f) ([], []) = (fs, steps v)"
    and bs: "bind_steps sanitize (steps v)
           \<lparr>b_forms = fs, b_targets = [], b_params = [], b_count = 0\<rparr> = Inr st"
    and lf: "layout_forms (b_forms st) = Inr (forms v)"
    by (rule initialize_parts)
  have "opt_wired []" by (simp add: opt_wired_def)
  from prepare_steps_wired[OF this ps] have "opt_wired fs" .
  with bind_steps_wired[OF _ bs] have "opt_wired (b_forms st)" by simp
  from layout_forms_wired[OF this lf] show ?thesis .
qed

lemma forms_wired_wiring: "wiring fs' = wiring fs \<Longrightarrow> forms_wired fs' = forms_wired fs"
proof (induction fs arbitrary: fs')
  case Nil
  then show ?case by (simp add: wiring_def)
next
  case (Cons p fs)
  then obtain p' fs'' where fs': "fs' = p' # fs''" by (cases fs') (auto simp: wiring_def)
  with Cons.prems have "wiring fs'' = wiring fs" and
    "flat_dict (snd p') = flat_dict (snd p)" "input_list (snd p') = input_list (snd p)"
    by (auto simp: wiring_def split: prod.splits)
  with Cons.IH[of fs''] wired_cong[of "snd p'" "snd p"] show ?case
    by (auto simp: forms_wired_def fs')
qed

lemma check_value_wiring:
  "check_value g kl (c, d, a) = Inr (c', d', a') \<Longrightarrow>
     flat_dict a' = flat_dict a \<and> input_list a' = input_list a"
  by (cases kl) (auto simp: check_value_def highlight_def Let_def split: if_splits option.splits)

lemma check_values_wiring:
  "check_values g kls (c, d, a) = (err, c', d', a') \<Longrightarrow>
     flat_dict a' = flat_dict a \<and> input_list a' = input_list a"
proof (induction kls arbitrary: c d a)
  case Nil
  then show ?case by simp
next
  case (Cons kl kls)
  show ?case
  proof (cases "check_value g kl (c, d, a)")
    case (Inl e)
    with Cons.prems show ?thesis by simp
  next
    case (Inr st)
    obtain c1 d1 a1 where st: "st = (c1, d1, a1)" by (cases st)
    from Inr st Cons.prems have "check_values g kls (c1, d1, a1) = (err, c', d', a')" by simp
    from Cons.IH[OF this] check_value_wiring[OF Inr[unfolded st]] show ?thesis by simp
  qed
qed

lemma check_forms_wiring:
  "check_forms ss fs (c, d) = (err, fs', c', d') \<Longrightarrow> wiring fs' = wiring fs"
proof (induction fs arbitrary: c d fs' c' d' err)
  case Nil
  then show ?case by simp
next
  case (Cons p fs)
  obtain e a where p: "p = (e, a)" by (cases p)
  show ?case
  proof (cases "map_of ss e")
    case None
    with Cons.prems p show ?thesis by auto
  next
    case (Some g)
    obtain er c1 d1 a1 where cv: "check_values g (create a)
        (c\<lparr>r_parameters := (r_parameters c)(step_id g \<mapsto> Map.empty)\<rparr>, d, a\<lparr>highlighted := []\<rparr>)
          = (er, c1, d1, a1)"
      by (metis prod_cases4)
    from check_values_wiring[OF cv] have pa: "flat_dict a1 = flat_dict a" "input_list a1 = input_list a"
      by simp_all
    show ?thesis
    proof (cases er)
      case (Some x)
      with Cons.prems p \<open>map_of ss e = Some g\<close> cv pa show ?thesis by (auto simp: wiring_def)
    next
      case None
      obtain er2 r2 c2 d2 where cf: "check_forms ss fs (c1, d1) = (er2, r2, c2, d2)"
        by (metis prod_cases4)
      from Cons.IH[OF cf] Cons.prems p \<open>map_of ss e = Some g\<close> cv pa None cf
      show ?thesis by (auto simp: wiring_def)
    qed
  qed
qed

lemma modify_wiring:
  assumes "\<And>a. flat_dict (g a) = flat_dict a \<and> input_list (g a) = input_list a"
  shows "wiring (modify k g fs) = wiring fs"
  by (induction fs) (auto simp: assms wiring_def)

lemma set_field_wiring: "wiring (set_field d x fs) = wiring fs"
  by (simp add: set_field_def modify_wiring)

lemma edit_field_wiring: "wiring (edit_field d x fs) = wiring fs"
  by (simp add: edit_field_def modify_wiring)

lemma writes_wiring: "wiring (foldl (\<lambda>fs (d, x). set_field d x fs) fs ws) = wiring fs"
  by (induction ws arbitrary: fs) (auto simp: set_field_wiring)

lemma portlet_map_wiring:
  "wiring (map (\<lambda>(k, b). (k, b\<lparr>portlet_enabled := x\<rparr>)) fs) = wiring fs"
  by (induction fs) (auto simp: wiring_def)

lemma execute_wiring: "wiring (forms (snd (execute v))) = wiring (forms v)"
proof -
  obtain er fs c d where va: "validate v = (er, fs, c, d)" by (metis prod_cases4)
  then have "check_forms (steps v) (forms v) (empty_request, True) = (er, fs, c, d)"
    by (simp add: validate_def)
  from check_forms_wiring[OF this] have k: "wiring fs = wiring (forms v)" .
  show ?thesis
    by (cases er; cases "history_form v")
       (auto simp: execute_def va enabled_def Let_def k portlet_map_wiring)
qed

lemma deliver_wiring: "wiring (forms (snd (deliver en r v))) = wiring (forms v)"
  by (cases r; cases "history_form v")
     (auto simp: deliver_def on_success_def on_error_def enabled_def Let_def portlet_map_wiring
           split: prod.splits)

lemma reachable_wired:
  assumes "reachable sanitize f v"
  shows "forms_wired (forms v)"
  using assms
proof (induction rule: reachable.induct)
  case (built v)
  then show ?case by (rule initialize_wired)
next
  case (attempt v)
  with forms_wired_wiring[OF execute_wiring] show ?case by simp
next
  case (response v en r)
  with forms_wired_wiring[OF deliver_wiring] show ?case by simp
next
  case (change v changes)
  with forms_wired_wiring[OF writes_wiring] show ?case by (simp add: onchange_def)
next
  case (edit v d x)
  with forms_wired_wiring[OF edit_field_wiring] show ?case by simp
qed

lemma check_values_no_error:
  assumes "\<forall>kl \<in> set kls. map_of (input_list a) (match a (fst kl)) \<noteq> None"
    and "r_parameters c (step_id g) \<noteq> None"
  shows "fst (check_values g kls (c, d, a)) = None"
  using assms
proof (induction kls arbitrary: c d a)
  case Nil
  then show ?case by simp
next
  case (Cons kl kls)
  obtain k l where kl: "kl = (k, l)" by (cases kl)
  from Cons.prems obtain n sub where n: "map_of (input_list a) (match a k) = Some n"
    and sub: "r_parameters c (step_id g) = Some sub"
    by (auto simp: kl)
  then have "\<exists>c1 d1 a1. check_value g (k, l) (c, d, a) = Inr (c1, d1, a1)
      \<and> r_parameters c1 (step_id g) \<noteq> None
      \<and> flat_dict a1 = flat_dict a \<and> input_list a1 = input_list a"
    by (auto simp: check_value_def highlight_def Let_def)
  then obtain c1 d1 a1 where 1: "check_value g (k, l) (c, d, a) = Inr (c1, d1, a1)"
    and p1: "r_parameters c1 (step_id g) \<noteq> None"
    and w1: "flat_dict a1 = flat_dict a" "input_list a1 = input_list a"
    by blast
  from w1 have "match a1 = match a" by (simp add: match_def fun_eq_iff)
  with Cons.prems(1) w1 have "\<forall>kl \<in> set kls. map_of (input_list a1) (match a1 (fst kl)) \<noteq> None"
    by simp
  from Cons.IH[OF this p1] 1 show ?case by (simp add: kl)
qed

lemma check_forms_no_error:
  assumes "keyed ss fs" and "forms_wired fs"
  shows "fst (check_forms ss fs (c, d)) = None"
  using assms
proof (induction fs arbitrary: c d)
  case Nil
  then show ?case by simp
next
  case (Cons p fs)
  obtain e a where p: "p = (e, a)" by (cases p)
  from Cons.prems(1) p obtain g where g: "map_of ss e = Some g" and k: "keyed ss fs"
    by (auto simp: keyed_def)
  from Cons.prems(2) p have w: "wired a" and ws: "forms_wired fs"
    by (auto simp: forms_wired_def)
  let ?c = "c\<lparr>r_parameters := (r_parameters c)(step_id g \<mapsto> Map.empty)\<rparr>"
  from w have "\<forall>kl \<in> set (create a).
      map_of (input_list (a\<lparr>highlighted := []\<rparr>)) (match (a\<lparr>highlighted := []\<rparr>) (fst kl)) \<noteq> None"
    by (auto simp: wired_def create_def)
  moreover have "r_parameters ?c (step_id g) \<noteq> None" by simp
  ultimately have "fst (check_values g (create a) (?c, d, a\<lparr>highlighted := []\<rparr>)) = None"
    by (rule check_values_no_error)
  then obtain c1 d1 a1 where cv: "check_values g (create a) (?c, d, a\<lparr>highlighted := []\<rparr>)
      = (None, c1, d1, a1)"
    by (metis fst_conv prod_cases4)
  from Cons.IH[OF k ws, of c1 d1] obtain r2 c2 d2 where
    "check_forms ss fs (c1, d1) = (None, r2, c2, d2)"
    by (metis fst_conv prod_cases4)
  with cv g show ?case by (simp add: p)
qed

lemma reachable_validation_error:
  assumes "reachable sanitize f v"
  shows "validation_error v = None"
  unfolding validation_error_def validate_def
  using registry_ok_keyed[OF reachable_registry_ok[OF assms]] reachable_wired[OF assms]
  by (rule check_forms_no_error)

section \<open>Claims about rejected submissions\<close>



section \<open>Claims about validation\<close>

lemma accepted_iff: "accepted n l = (\<not> required_and_null n l)"
  by (auto simp: accepted_def required_and_null_def)

lemma map_of_filter_distinct:
  "distinct (map fst xs) \<Longrightarrow> (k, l) \<in> set xs \<Longrightarrow>
     map_of (filter P xs) k = (if P (k, l) then Some l else None)"
proof (induction xs)
  case Nil
  then show ?case by simp
next
  case (Cons x xs)
  obtain kx lx where x: "x = (kx, lx)" by (cases x)
  show ?case
  proof (cases "(k, l) = x")
    case True
    with Cons.prems x have "k \<notin> fst ` set xs" by auto
    then have "map_of (filter P xs) k = None"
      by (auto simp: map_of_eq_None_iff)
    with True x show ?thesis by auto
  next
    case False
    with Cons.prems have in_xs: "(k, l) \<in> set xs" and d: "distinct (map fst xs)" by auto
    with Cons.prems x have "k \<noteq> kx" by force
    with Cons.IH[OF d in_xs] x show ?thesis by simp
  qed
qed

lemma map_of_rev_distinct: "distinct (map fst xs) \<Longrightarrow> map_of (rev xs) = map_of xs"
proof (rule ext)
  fix k
  assume d: "distinct (map fst xs)"
  then have dr: "distinct (map fst (rev xs))" by (simp add: rev_map[symmetric])
  show "map_of (rev xs) k = map_of xs k"
  proof (cases "map_of xs k")
    case None
    then have "map_of (rev xs) k = None" by (metis map_of_eq_None_iff set_rev)
    with None show ?thesis by simp
  next
    case (Some l)
    with d dr show ?thesis by simp
  qed
qed

lemma create_keys: "map fst (create a) = map fst (flat_dict a)"
  by (simp add: create_def comp_def case_prod_unfold)

lemma create_mem:
  "(k, l) \<in> set (create a) \<longleftrightarrow> (\<exists>m. (k, m) \<in> set (flat_dict a) \<and> l = field_value a m)"
  by (auto simp: create_def)

lemma match_distinct:
  "distinct (map fst (flat_dict a)) \<Longrightarrow> (k, m) \<in> set (flat_dict a) \<Longrightarrow> match a k = m"
  by (simp add: match_def)

lemma validate_outcome:
  assumes "validation_error v = None"
  obtains fs' c d where "check_forms (steps v) (forms v) (empty_request, True) = (None, fs', c, d)"
    and "validation_forms v = fs'" and "validation_request v = c" and "validation_ok v = d"
  using assms
  by (cases "validate v")
     (auto simp: validation_error_def validation_forms_def validation_request_def
           validation_ok_def validate_def)

lemma example_view_reachable: "reachable escape_html example_workflow example_view"
proof -
  have "\<not> isl (initialize escape_html example_workflow)" by code_simp
  then have "initialize escape_html example_workflow = Inr example_view"
    unfolding example_view_def by (cases "initialize escape_html example_workflow") auto
  then show ?thesis by (rule reachable.built)
qed

lemma example_runtime_view_reachable:
  "reachable escape_html example_runtime_workflow example_runtime_view"
proof -
  have "\<not> isl (initialize escape_html example_runtime_workflow)" by code_simp
  then have "initialize escape_html example_runtime_workflow = Inr example_runtime_view"
    unfolding example_runtime_view_def
    by (cases "initialize escape_html example_runtime_workflow") auto
  then show ?thesis by (rule reachable.built)
qed

text \<open>C5, as the claim states it, fails: in the workflow whose tool step has a text
  input that is required and holds the empty string, the value is required and empty,
  and it is not classified invalid: validation passes, no field is highlighted, and the empty
  string is written to the parameters of the step.  It is written under the key
  \<open>title\<close> under which the data of the form returned it, and nothing is written under the
  identifier \<open>e1\<close> of the input.\<close>

theorem required_empty_string_counterexample:
  "\<not> isl (initialize escape_html example_blank_workflow)
   \<and> step_type (step_at example_blank_view 4) = ''tool''
   \<and> flat_dict (form_of example_blank_view 4) = [(''title'', ''e1'')]
   \<and> match (form_of example_blank_view 4) ''title'' = ''e1''
   \<and> (case map_of (input_list (form_of example_blank_view 4)) ''e1'' of
         Some n \<Rightarrow> required_and_empty n (field_value (form_of example_blank_view 4) ''e1'')
       | None \<Rightarrow> False)
   \<and> validation_ok example_blank_view
   \<and> map (\<lambda>(e, a). (e, highlighted a)) (validation_forms example_blank_view) = [(4, [])]
   \<and> (case r_parameters (validation_request example_blank_view) 4 of
         Some sub \<Rightarrow> sub ''title'' = Some (JStr []) \<and> sub ''e1'' = None
       | None \<Rightarrow> False)"
  by code_simp

text \<open>C5, amended.  In every state that the view passes through, a value \<open>l\<close> extracted
  under the key \<open>k\<close> from the form of a tool step, for the field \<open>m\<close> whose input
  is defined by \<open>n\<close>: the field is highlighted if and only if it is required (neither
  optional nor workflow-bound) and its value is \<^verbatim>\<open>null\<close> or \<^verbatim>\<open>undefined\<close>, in which case
  the submission is not valid and nothing is written under \<open>k\<close>; every other value, the
  empty string included, is written to the parameters of the request under the
  identifier of the step and the key \<open>k\<close>, the key under which the data of the form
  returned the value.\<close>

theorem tool_value_invalid_iff_required_and_null:
  assumes "reachable sanitize f v"
    and "(e, a) \<in> set (forms v)" and "(e, g) \<in> set (steps v)" and "step_type g = ''tool''"
    and "distinct (map fst (flat_dict a))"
    and "(k, m) \<in> set (flat_dict a)"
  shows "\<exists>n sub a'. map_of (input_list a) m = Some n
          \<and> r_parameters (validation_request v) (step_id g) = Some sub
          \<and> map_of (validation_forms v) e = Some a'
          \<and> (m \<in> set (highlighted a')) = required_and_null n (field_value a m)
          \<and> (required_and_null n (field_value a m) \<longrightarrow> \<not> validation_ok v)
          \<and> sub k = (if required_and_null n (field_value a m) then None
                      else Some (field_value a m))"
proof -
  let ?l = "field_value a m"
  from reachable_validation_error[OF assms(1)] obtain fs' c d where
    cf: "check_forms (steps v) (forms v) (empty_request, True) = (None, fs', c, d)"
    and vf: "validation_forms v = fs'" and vr: "validation_request v = c"
    and vo: "validation_ok v = d"
    by (rule validate_outcome)
  from reachable_registry_ok[OF assms(1)] have ok: "registry_ok v" .
  then have keyed: "keyed (steps v) (forms v)" by (rule registry_ok_keyed)
  from ok have df: "distinct (map fst (forms v))" and ds: "distinct (map fst (steps v))"
    by (auto simp: registry_ok_def strict_sorted_iff)
  from ds assms(3) have g: "map_of (steps v) e = Some g" by simp
  from ok assms(3) have id: "step_id g = e" by (auto simp: registry_ok_def)
  from assms(4) have tool: "\<not> is_data_input (step_type g)" by (simp add: is_data_input_def)
  from df assms(2) have ma: "map_of (forms v) e = Some a" by simp
  from check_forms_outcome[OF cf keyed] have
    P: "r_parameters c =
           (\<lambda>h. case map_of (forms v) h of
                  Some a \<Rightarrow> Some (form_parameters (the (map_of (steps v) h)) a)
                | None \<Rightarrow> r_parameters empty_request h)"
    and D: "d = (\<forall>(e, a) \<in> set (forms v). form_valid (the (map_of (steps v) e)) a)"
    and K: "map fst fs' = map fst (forms v)"
    by simp_all
  from assms(2) obtain pre post where sp: "forms v = pre @ (e, a) # post"
    by (auto dest: split_list)
  from check_forms_highlights[OF cf[unfolded sp] g] tool obtain hl where
    nth: "fs' ! length pre = (e, a\<lparr>highlighted := hl\<rparr>)"
    and hl: "hl = form_highlights g a
                (\<forall>(e', a') \<in> set pre. form_valid (the (map_of (steps v) e')) a')"
    and il: "list_all (\<lambda>kl. map_of (input_list a) (match a (fst kl)) \<noteq> None) (create a)"
    by auto
  from K have "length fs' = length (forms v)" by (rule map_eq_imp_length_eq)
  with sp have len: "length pre < length fs'" by simp
  with nth have "(e, a\<lparr>highlighted := hl\<rparr>) \<in> set fs'" by (metis nth_mem)
  with K df have ma': "map_of fs' e = Some (a\<lparr>highlighted := hl\<rparr>)" by simp
  have mk: "match a k' = m'" if "(k', m') \<in> set (flat_dict a)" for k' m'
    using that assms(5) by (rule match_distinct[rotated])
  have km: "(k, ?l) \<in> set (create a)" using assms(6) by (auto simp: create_mem)
  with il mk[OF assms(6)] obtain n where n: "map_of (input_list a) m = Some n"
    by (auto simp: list_all_iff)
  have ta: "tool_accepted a (k', field_value a m) = (\<not> required_and_null n ?l)"
    if "(k', m) \<in> set (flat_dict a)" for k'
    using mk[OF that] n by (simp add: tool_accepted_def accepted_iff)
  have fv: "field_valid g a = tool_accepted a"
    using tool by (simp add: field_valid_def fun_eq_iff)
  have H: "(m \<in> set hl) = required_and_null n ?l"
  proof
    assume "m \<in> set hl"
    then obtain k' l' where "(k', l') \<in> set (create a)" and "match a k' = m"
      and nt: "\<not> tool_accepted a (k', l')"
      by (auto simp: hl form_highlights_def tool fv Let_def)
    then obtain m' where "(k', m') \<in> set (flat_dict a)" and "l' = field_value a m'"
      by (auto simp: create_mem)
    with mk[of k' m'] \<open>match a k' = m\<close> have "(k', m) \<in> set (flat_dict a)" "l' = ?l" by auto
    with ta nt show "required_and_null n ?l" by auto
  next
    assume "required_and_null n ?l"
    with ta[OF assms(6)] have "\<not> tool_accepted a (k, ?l)" by simp
    with km mk[OF assms(6)] show "m \<in> set hl"
      by (force simp: hl form_highlights_def tool fv Let_def)
  qed
  have V: "\<not> d" if "required_and_null n ?l"
  proof -
    from that ta[OF assms(6)] km have "\<not> form_valid g a"
      by (auto simp: form_valid_def list_all_iff fv)
    with assms(2) g show ?thesis unfolding D by force
  qed
  have dk: "distinct (map fst (create a))" using assms(5) by (simp add: create_keys)
  have S: "form_parameters g a k = (if required_and_null n ?l then None else Some ?l)"
    using tool ta[OF assms(6)]
    by (simp add: form_parameters_def fv map_of_rev_distinct distinct_map_filter dk
          map_of_filter_distinct[OF dk km])
  from P ma g id have "r_parameters c (step_id g) = Some (form_parameters g a)" by simp
  with n ma' H V S show ?thesis
    unfolding vf vr vo by auto
qed

theorem tool_value_invalid_iff_required_and_null_witness:
  "reachable escape_html example_runtime_workflow example_runtime_view
   \<and> (5, form_of example_runtime_view 5) \<in> set (forms example_runtime_view)
   \<and> (5, step_at example_runtime_view 5) \<in> set (steps example_runtime_view)
   \<and> step_type (step_at example_runtime_view 5) = ''tool''
   \<and> distinct (map fst (flat_dict (form_of example_runtime_view 5)))
   \<and> (''threshold'', ''r1'') \<in> set (flat_dict (form_of example_runtime_view 5))
   \<and> (\<exists>n. map_of (input_list (form_of example_runtime_view 5)) ''r1'' = Some n
          \<and> required_and_null n (field_value (form_of example_runtime_view 5) ''r1''))
   \<and> (\<exists>a'. map_of (validation_forms example_runtime_view) 5 = Some a'
          \<and> ''r1'' \<in> set (highlighted a'))
   \<and> \<not> validation_ok example_runtime_view"
proof -
  let ?v = example_runtime_view
  let ?a = "form_of ?v 5"
  let ?g = "step_at ?v 5"
  have h3: "(5, ?a) \<in> set (forms ?v)" by code_simp
  have h4: "(5, ?g) \<in> set (steps ?v)" by code_simp
  have h5: "step_type ?g = ''tool''" by code_simp
  have h6: "distinct (map fst (flat_dict ?a))" by code_simp
  have h7: "(''threshold'', ''r1'') \<in> set (flat_dict ?a)" by code_simp
  have "case map_of (input_list ?a) ''r1'' of
          Some n \<Rightarrow> required_and_null n (field_value ?a ''r1'')
        | None \<Rightarrow> False" by code_simp
  then have re: "\<forall>n. map_of (input_list ?a) ''r1'' = Some n \<longrightarrow>
              required_and_null n (field_value ?a ''r1'')"
    by (auto split: option.splits)
  from tool_value_invalid_iff_required_and_null
         [OF example_runtime_view_reachable h3 h4 h5 h6 h7] re
  have "(\<exists>n. map_of (input_list ?a) ''r1'' = Some n
          \<and> required_and_null n (field_value ?a ''r1''))
      \<and> (\<exists>a'. map_of (validation_forms ?v) 5 = Some a' \<and> ''r1'' \<in> set (highlighted a'))
      \<and> \<not> validation_ok ?v"
    by blast
  with example_runtime_view_reachable h3 h4 h5 h6 h7 show ?thesis by blast
qed

lemma registry_ok_lookup:
  assumes "registry_ok v" and "(e, a) \<in> set (forms v)"
  obtains g where "map_of (steps v) e = Some g" and "(e, g) \<in> set (steps v)" and "step_id g = e"
    and "step_at v e = g"
proof -
  from registry_ok_keyed[OF assms(1)] assms(2) obtain g where
    g: "map_of (steps v) e = Some g" and id: "step_id g = e"
    by (auto simp: keyed_def)
  from g have "(e, g) \<in> set (steps v)" by (rule map_of_SomeD)
  with g id that show ?thesis by (simp add: step_at_def)
qed

lemma execute_invalid_requests:
  assumes "validation_error v = None" and "\<not> validation_ok v"
  shows "requests (snd (execute v)) = requests v"
proof -
  from assms obtain fs c where "validate v = (None, fs, c, False)"
    by (cases "validate v") (auto simp: validation_error_def validation_ok_def)
  then show ?thesis
    by (cases "history_form v") (auto simp: execute_def enabled_def Let_def)
qed

lemma execute_valid_requests:
  assumes "validation_error v = None" and "validation_ok v" and "history_form v \<noteq> None"
  shows "requests (snd (execute v)) = requests v @ [validation_request v]"
proof -
  from assms(1,2) obtain fs c where "validate v = (None, fs, c, True)"
    by (cases "validate v") (auto simp: validation_error_def validation_ok_def)
  with assms(3) show ?thesis
    by (auto simp: execute_def enabled_def Let_def validation_request_def)
qed

lemma example_view_selected_reachable:
  "reachable escape_html example_workflow example_view_selected"
  unfolding example_view_selected_def using example_view_reachable by (rule reachable.edit)

text \<open>C2, as the claim states it, fails: in the example workflow with a dataset selected,
  validation passes, and the parameters of the request that is built and sent hold a
  sub-map under the identifier of the data input step.\<close>

theorem request_parameters_counterexample:
  "validation_error example_view_selected = None
   \<and> validation_ok example_view_selected
   \<and> (10, step_at example_view_selected 10) \<in> set (steps example_view_selected)
   \<and> step_type (step_at example_view_selected 10) = ''data_input''
   \<and> r_parameters (validation_request example_view_selected)
        (step_id (step_at example_view_selected 10)) \<noteq> None
   \<and> map (\<lambda>c. r_parameters c (step_id (step_at example_view_selected 10)) \<noteq> None)
        (requests (snd (execute example_view_selected))) = [True]"
  by code_simp

text \<open>C2, amended.  In every state that the view passes through, on a submission that
  passes validation, the parameters of the request hold exactly one sub-map per step of
  any type, keyed by the identifier of the step, and the sub-map of a data input step is
  empty; the inputs of the request hold an entry under the order index of every data
  input step whose form exposes a field, and under no other key.  With a history form
  present, this request is the one handed to the transport.\<close>

theorem request_maps_after_validation:
  assumes "reachable sanitize f v" and "validation_ok v"
  shows "dom (r_parameters (validation_request v)) = step_id ` snd ` set (steps v)
       \<and> (\<forall>(e, g) \<in> set (steps v). is_data_input (step_type g) \<longrightarrow>
             r_parameters (validation_request v) (step_id g) = Some Map.empty)
       \<and> dom (r_inputs (validation_request v)) =
             {order_index g | e g a. (e, g) \<in> set (steps v) \<and> (e, a) \<in> set (forms v)
                \<and> is_data_input (step_type g) \<and> flat_dict a \<noteq> []}
       \<and> (history_form v \<noteq> None \<longrightarrow>
             requests (snd (execute v)) = requests v @ [validation_request v])"
proof -
  note ve = reachable_validation_error[OF assms(1)]
  from ve obtain fs' c d where
    cf: "check_forms (steps v) (forms v) (empty_request, True) = (None, fs', c, d)"
    and vr: "validation_request v = c" and vo: "validation_ok v = d"
    by (rule validate_outcome)
  from reachable_registry_ok[OF assms(1)] have ok: "registry_ok v" .
  then have keyed: "keyed (steps v) (forms v)" by (rule registry_ok_keyed)
  from ok have df: "distinct (map fst (forms v))" and ds: "distinct (map fst (steps v))"
    and keys: "map fst (steps v) = map fst (forms v)"
    and ids: "\<forall>(e, g) \<in> set (steps v). step_id g = e"
    by (auto simp: registry_ok_def strict_sorted_iff)
  from check_forms_outcome[OF cf keyed] have
    P: "r_parameters c =
           (\<lambda>h. case map_of (forms v) h of
                  Some a \<Rightarrow> Some (form_parameters (the (map_of (steps v) h)) a)
                | None \<Rightarrow> r_parameters empty_request h)"
    and D: "d = (\<forall>(e, a) \<in> set (forms v). form_valid (the (map_of (steps v) e)) a)"
    and I: "dom (r_inputs c) = dom (r_inputs empty_request)
            \<union> {order_index (the (map_of (steps v) e)) | e a.
                 (e, a) \<in> set (forms v) \<and> form_selected (the (map_of (steps v) e)) a}"
    by simp_all
  have "dom (r_parameters c) = fst ` set (forms v)"
    unfolding P by (auto simp: empty_request_def dom_def map_of_eq_None_iff split: option.splits)
  also have "\<dots> = fst ` set (steps v)" using keys by (metis set_map)
  also have "\<dots> = step_id ` snd ` set (steps v)" using ids by force
  finally have A: "dom (r_parameters c) = step_id ` snd ` set (steps v)" .
  have B: "r_parameters c (step_id g) = Some Map.empty"
    if "(e, g) \<in> set (steps v)" and "is_data_input (step_type g)" for e g
  proof -
    from that(1) ids have id: "step_id g = e" by auto
    from that(1) ds have g: "map_of (steps v) e = Some g" by simp
    from that(1) keys have "e \<in> fst ` set (forms v)" by (metis set_map image_eqI fst_conv)
    then obtain a where "map_of (forms v) e = Some a"
      by (cases "map_of (forms v) e") (auto simp: map_of_eq_None_iff)
    with that(2) g id show ?thesis unfolding P by (simp add: form_parameters_def)
  qed
  have sel: "form_selected g a = (is_data_input (step_type g) \<and> flat_dict a \<noteq> [])"
    if "(e, a) \<in> set (forms v)" and "map_of (steps v) e = Some g" for e a g
  proof -
    from assms(2) vo D that have "form_valid g a" by force
    then show ?thesis
      by (cases "flat_dict a")
         (auto simp: form_selected_def form_valid_def field_valid_def create_def list_ex_iff)
  qed
  have C: "dom (r_inputs c) =
             {order_index g | e g a. (e, g) \<in> set (steps v) \<and> (e, a) \<in> set (forms v)
                \<and> is_data_input (step_type g) \<and> flat_dict a \<noteq> []}"
    (is "_ = ?R")
  proof (rule set_eqI, rule iffI)
    fix j assume "j \<in> dom (r_inputs c)"
    with I obtain e a where ea: "(e, a) \<in> set (forms v)"
      and j: "j = order_index (the (map_of (steps v) e))"
      and fs: "form_selected (the (map_of (steps v) e)) a"
      by (auto simp: empty_request_def)
    from ok ea obtain g where g: "map_of (steps v) e = Some g" and "(e, g) \<in> set (steps v)"
      by (rule registry_ok_lookup)
    with ea j fs sel[OF ea g] show "j \<in> ?R" by auto
  next
    fix j assume "j \<in> ?R"
    then obtain e g a where eg: "(e, g) \<in> set (steps v)" and ea: "(e, a) \<in> set (forms v)"
      and dt: "is_data_input (step_type g)" and ne: "flat_dict a \<noteq> []" and j: "j = order_index g"
      by auto
    from eg ds have g: "map_of (steps v) e = Some g" by simp
    with sel[OF ea g] dt ne ea j have
      "j \<in> {order_index (the (map_of (steps v) e)) | e a.
                 (e, a) \<in> set (forms v) \<and> form_selected (the (map_of (steps v) e)) a}"
      by force
    with I show "j \<in> dom (r_inputs c)" by simp
  qed
  from A B C execute_valid_requests[OF ve assms(2)] show ?thesis
    unfolding vr by auto
qed

theorem request_maps_after_validation_witness:
  "reachable escape_html example_workflow example_view_selected
   \<and> validation_ok example_view_selected
   \<and> history_form example_view_selected \<noteq> None
   \<and> dom (r_parameters (validation_request example_view_selected))
       = step_id ` snd ` set (steps example_view_selected)
   \<and> requests (snd (execute example_view_selected))
       = requests example_view_selected @ [validation_request example_view_selected]"
proof -
  have h3: "validation_ok example_view_selected" by code_simp
  have h4: "history_form example_view_selected \<noteq> None" by code_simp
  note t = request_maps_after_validation[OF example_view_selected_reachable h3]
  from t have c1: "dom (r_parameters (validation_request example_view_selected))
       = step_id ` snd ` set (steps example_view_selected)"
    by (rule conjunct1)
  from t have "history_form example_view_selected \<noteq> None \<longrightarrow>
      requests (snd (execute example_view_selected))
        = requests example_view_selected @ [validation_request example_view_selected]"
    by (elim conjE)
  with h4 have c2: "requests (snd (execute example_view_selected))
        = requests example_view_selected @ [validation_request example_view_selected]"
    by (rule rev_mp)
  from example_view_selected_reachable h3 h4 c1 c2 show ?thesis
    by (intro conjI)
qed

text \<open>C4, as the claim states it, fails: in the workflow whose tool step comes first and
  has a required input without a value, the field of the tool step is highlighted, and
  the field of the data input step, the first data input without a selected value, is
  not.\<close>

theorem first_missing_data_input_counterexample:
  "validation_error example_runtime_view = None
   \<and> is_data_input (step_type (step_at example_runtime_view 7))
   \<and> flat_dict (form_of example_runtime_view 7) = [(''input'', ''r2'')]
   \<and> \<not> has_values (field_value (form_of example_runtime_view 7) ''r2'')
   \<and> map (\<lambda>(e, a). (e, highlighted a)) (validation_forms example_runtime_view)
       = [(5, [''r1'']), (7, [])]
   \<and> map (\<lambda>(e, a). (e, highlighted a)) (forms (snd (execute example_runtime_view)))
       = [(5, [''r1'']), (7, [])]"
  by code_simp

text \<open>C4, amended.  In every state that the view passes through, when a data input step
  has a field without a selected value, the submission is rejected and no request is
  sent.  The first such field of the form
  is highlighted when every form visited before it is valid, and is not highlighted
  otherwise.\<close>

theorem missing_data_input_rejects_submission:
  assumes "reachable sanitize f v"
    and "forms v = pre @ (e, a) # post" and "(e, g) \<in> set (steps v)"
    and "is_data_input (step_type g)"
    and "distinct (map fst (flat_dict a))"
    and "flat_dict a = xs @ (k, m) # ys"
    and "\<forall>(k', m') \<in> set xs. has_values (field_value a m')"
    and "\<not> has_values (field_value a m)"
  shows "\<not> validation_ok v
       \<and> requests (snd (execute v)) = requests v
       \<and> (\<exists>a'. validation_forms v ! length pre = (e, a')
              \<and> highlighted a' =
                  (if \<forall>(e', a0) \<in> set pre. form_valid (step_at v e') a0 then [m] else []))"
proof -
  note ve = reachable_validation_error[OF assms(1)]
  from ve obtain fs' c d where
    cf: "check_forms (steps v) (forms v) (empty_request, True) = (None, fs', c, d)"
    and vf: "validation_forms v = fs'" and vo: "validation_ok v = d"
    by (rule validate_outcome)
  from reachable_registry_ok[OF assms(1)] have ok: "registry_ok v" .
  then have keyed: "keyed (steps v) (forms v)" by (rule registry_ok_keyed)
  from ok have ds: "distinct (map fst (steps v))"
    by (auto simp: registry_ok_def strict_sorted_iff)
  from ds assms(3) have g: "map_of (steps v) e = Some g" by simp
  from check_forms_outcome[OF cf keyed] have
    D: "d = (\<forall>(e, a) \<in> set (forms v). form_valid (the (map_of (steps v) e)) a)"
    by simp
  have fv: "field_valid g a = (\<lambda>kl. has_values (snd kl))"
    using assms(4) by (simp add: field_valid_def fun_eq_iff)
  have cr: "create a = map (\<lambda>(k, m). (k, field_value a m)) xs
                @ (k, field_value a m) # map (\<lambda>(k, m). (k, field_value a m)) ys"
    by (simp add: create_def assms(6))
  have nv: "\<not> form_valid g a"
    by (simp add: form_valid_def cr fv assms(8))
  have "(e, a) \<in> set (forms v)" by (simp add: assms(2))
  with nv g have nd: "\<not> d" unfolding D by force
  have mk: "match a k = m"
    using assms(5) by (rule match_distinct) (simp add: assms(6))
  have fx: "filter (\<lambda>kl. \<not> has_values (snd kl)) (map (\<lambda>(k, m). (k, field_value a m)) xs) = []"
    using assms(7) by (auto simp: filter_empty_conv)
  have bad: "take 1 (map (\<lambda>kl. match a (fst kl)) (filter (\<lambda>kl. \<not> field_valid g a kl) (create a)))
           = [m]"
    by (simp add: fv cr fx assms(8) mk)
  have pv: "(\<forall>(e', a') \<in> set pre. form_valid (the (map_of (steps v) e')) a')
          = (\<forall>(e', a0) \<in> set pre. form_valid (step_at v e') a0)"
  proof -
    have "the (map_of (steps v) e') = step_at v e'" if "(e', a0) \<in> set pre" for e' a0
    proof -
      from that have "(e', a0) \<in> set (forms v)" by (simp add: assms(2))
      with ok obtain g' where "map_of (steps v) e' = Some g'" "step_at v e' = g'"
        by (rule registry_ok_lookup)
      then show ?thesis by simp
    qed
    then show ?thesis by auto
  qed
  from check_forms_highlights[OF cf[unfolded assms(2)] g]
  have "fs' ! length pre =
          (e, a\<lparr>highlighted := form_highlights g a
                  (\<forall>(e', a') \<in> set pre. form_valid (the (map_of (steps v) e')) a')\<rparr>)"
    by simp
  then have H: "\<exists>a'. fs' ! length pre = (e, a')
      \<and> highlighted a' = (if \<forall>(e', a0) \<in> set pre. form_valid (step_at v e') a0 then [m] else [])"
    unfolding pv using bad by (simp add: form_highlights_def assms(4) Let_def)
  from nd vo have nok: "\<not> validation_ok v" by simp
  from nok execute_invalid_requests[OF ve nok] H show ?thesis
    unfolding vf by simp
qed

theorem missing_data_input_rejects_submission_witness:
  "reachable escape_html example_workflow example_view
   \<and> forms example_view = [] @ (10, form_of example_view 10) # [(11, form_of example_view 11)]
   \<and> (10, step_at example_view 10) \<in> set (steps example_view)
   \<and> is_data_input (step_type (step_at example_view 10))
   \<and> distinct (map fst (flat_dict (form_of example_view 10)))
   \<and> flat_dict (form_of example_view 10) = [] @ (''input'', ''u1'') # []
   \<and> \<not> has_values (field_value (form_of example_view 10) ''u1'')
   \<and> \<not> validation_ok example_view
   \<and> requests (snd (execute example_view)) = requests example_view
   \<and> (\<exists>a'. validation_forms example_view ! 0 = (10, a') \<and> highlighted a' = [''u1''])"
proof -
  let ?v = example_view
  have h3: "forms ?v = [] @ (10, form_of ?v 10) # [(11, form_of ?v 11)]" by code_simp
  have h4: "(10, step_at ?v 10) \<in> set (steps ?v)" by code_simp
  have h5: "is_data_input (step_type (step_at ?v 10))" by code_simp
  have h6: "distinct (map fst (flat_dict (form_of ?v 10)))" by code_simp
  have h7: "flat_dict (form_of ?v 10) = [] @ (''input'', ''u1'') # []" by code_simp
  have h8: "\<forall>(k', m') \<in> set []. has_values (field_value (form_of ?v 10) m')" by simp
  have h9: "\<not> has_values (field_value (form_of ?v 10) ''u1'')" by code_simp
  from missing_data_input_rejects_submission[OF example_view_reachable h3 h4 h5 h6 h7 h8 h9]
  have "\<not> validation_ok ?v
      \<and> requests (snd (execute ?v)) = requests ?v
      \<and> (\<exists>a'. validation_forms ?v ! 0 = (10, a') \<and> highlighted a' = [''u1''])"
    by simp
  with example_view_reachable h3 h4 h5 h6 h7 h9 show ?thesis by blast
qed

section \<open>The parameter scan in closed form\<close>

lemma bind_input_state:
  assumes "bind_input sanitize c b st = Inr st'"
  shows "scan_state st' =
           (if is_placeholder (i_value b)
            then record_hit (placeholder_name sanitize (i_value b), c, b) (scan_state st)
            else scan_state st)"
  using assms
  by (auto simp: bind_input_def scan_state_def record_hit_def targets_of_def new_param_def Let_def
           split: if_splits option.splits prod.splits)

lemma bind_inputs_state:
  assumes "bind_inputs sanitize c bs st = Inr st'"
  shows "scan_state st' =
           foldl (\<lambda>s hit. record_hit hit s) (scan_state st)
             (map (\<lambda>i. (placeholder_name sanitize (i_value i), c, i))
                  (filter (\<lambda>i. is_placeholder (i_value i)) bs))"
  using assms
proof (induction bs arbitrary: st)
  case Nil
  then show ?case by simp
next
  case (Cons b bs)
  from Cons.prems obtain st1 where 1: "bind_input sanitize c b st = Inr st1"
    and 2: "bind_inputs sanitize c bs st1 = Inr st'"
    by (auto split: sum.splits)
  from Cons.IH[OF 2] bind_input_state[OF 1] show ?case by simp
qed

lemma bind_steps_state:
  assumes "bind_steps sanitize ss st = Inr st'"
  shows "scan_state st' = foldl (\<lambda>s hit. record_hit hit s) (scan_state st) (scan_hits sanitize ss)"
  using assms
proof (induction ss arbitrary: st)
  case Nil
  then show ?case by (simp add: scan_hits_def)
next
  case (Cons p ss)
  obtain c b where p: "p = (c, b)" by (cases p)
  from Cons.prems p obtain st1 where 1: "bind_inputs sanitize c (top_level (inputs b)) st = Inr st1"
    and 2: "bind_steps sanitize ss st1 = Inr st'"
    by (auto split: sum.splits)
  from Cons.IH[OF 2] bind_inputs_state[OF 1] show ?case
    by (simp add: p scan_hits_def)
qed


lemma map_of_dict_put:
  "map_of (dict_put k v xs) k' = (if k' = k then Some v else map_of xs k')"
  by (induction xs) auto

lemma dict_put_new: "map_of xs k = None \<Longrightarrow> dict_put k v xs = xs @ [(k, v)]"
  by (induction xs) (auto split: if_splits)

lemma targets_of_dict_put:
  "targets_of (dict_put k v h) l = (if l = k then v else targets_of h l)"
  by (simp add: targets_of_def map_of_dict_put)

lemma fold_hits_targets:
  assumes "foldl (\<lambda>s hit. record_hit hit s) (h, i, j) hits = (h', i', j')"
  shows "targets_of h' l =
           targets_of h l @ map (\<lambda>hit. (fst (snd hit), i_id (snd (snd hit))))
                                (filter (\<lambda>hit. fst hit = l) hits)"
  using assms
proof (induction hits arbitrary: h i j)
  case Nil
  then show ?case by simp
next
  case (Cons hit hits)
  obtain n c b where hit: "hit = (n, c, b)" by (cases hit)
  obtain h1 i1 j1 where 1: "record_hit hit (h, i, j) = (h1, i1, j1)"
    by (cases "record_hit hit (h, i, j)")
  then have h1: "h1 = dict_put n (targets_of h n @ [(c, i_id b)]) h"
    by (auto simp: record_hit_def hit)
  from Cons.prems 1 have "foldl (\<lambda>s hit. record_hit hit s) (h1, i1, j1) hits = (h', i', j')"
    by simp
  from Cons.IH[OF this] show ?case
    by (simp add: hit h1 targets_of_dict_put)
qed

lemma first_seen_set [simp]: "set (first_seen xs) = set xs"
  by (induction xs) auto

lemma first_seen_distinct [simp]: "distinct (first_seen xs)"
  by (induction xs) auto

lemma fold_hits_params:
  assumes "foldl (\<lambda>s hit. record_hit hit s) (h, i, j) hits = (h', i', j')"
    and "coloured i j"
  shows "coloured i' j'
       \<and> map fst i' = map fst i @ filter (\<lambda>l. l \<notin> fst ` set i) (first_seen (map fst hits))"
  using assms
proof (induction hits arbitrary: h i j)
  case Nil
  then show ?case by simp
next
  case (Cons hit hits)
  obtain n c b where hit: "hit = (n, c, b)" by (cases hit)
  obtain h1 i1 j1 where 1: "record_hit hit (h, i, j) = (h1, i1, j1)"
    by (cases "record_hit hit (h, i, j)")
  from Cons.prems(1) 1 have f: "foldl (\<lambda>s hit. record_hit hit s) (h1, i1, j1) hits = (h', i', j')"
    by simp
  show ?case
  proof (cases "map_of i n")
    case None
    then have nk: "n \<notin> fst ` set i" by (simp add: map_of_eq_None_iff)
    from 1 None have i1: "i1 = i @ [(n, new_param n b (Suc j))]" and j1: "j1 = Suc j"
      by (auto simp: record_hit_def hit dict_put_new)
    from Cons.prems(2) nk have c1: "coloured i1 j1"
      by (auto simp: coloured_def i1 j1 nth_append new_param_def less_Suc_eq)
    have "filter (\<lambda>l. l \<notin> fst ` set i1) (first_seen (map fst hits))
        = filter (\<lambda>l. l \<notin> fst ` set i) (filter (\<lambda>y. y \<noteq> n) (first_seen (map fst hits)))"
      by (auto simp: i1 intro: filter_cong)
    with Cons.IH[OF f c1] nk show ?thesis
      by (simp add: hit i1)
  next
    case (Some p)
    then have k: "n \<in> fst ` set i" by (metis map_of_eq_None_iff option.distinct(1))
    from 1 Some have i1: "i1 = i" and j1: "j1 = j"
      by (auto simp: record_hit_def hit)
    have "filter (\<lambda>l. l \<notin> fst ` set i) (first_seen (map fst hits))
        = filter (\<lambda>l. l \<notin> fst ` set i) (filter (\<lambda>y. y \<noteq> n) (first_seen (map fst hits)))"
      using k by (auto intro: filter_cong)
    with Cons.IH[OF f Cons.prems(2)[folded i1 j1]] k show ?thesis
      by (simp add: hit i1)
  qed
qed


lemma digit_val_digit_char: "digit_val (digit_char n) = n mod 10"
proof -
  have "\<forall>k \<in> set [0..<10]. digit_val (''0123456789'' ! k) = k" by code_simp
  moreover have "n mod 10 \<in> set [0..<10]" by simp
  ultimately show ?thesis unfolding digit_char_def by blast
qed

lemma read_nat_show_nat: "read_nat (show_nat n) = n"
proof (induction n rule: show_nat.induct)
  case (1 n)
  show ?case
  proof (cases "n < 10")
    case True
    then show ?thesis
      by (simp add: show_nat.simps[of n] read_nat_def digit_val_digit_char)
  next
    case False
    with 1 have "read_nat (show_nat (n div 10)) = n div 10" by simp
    with False show ?thesis
      by (simp add: show_nat.simps[of n] read_nat_def digit_val_digit_char)
  qed
qed

lemma show_nat_inj: "show_nat m = show_nat n \<Longrightarrow> m = n"
  by (metis read_nat_show_nat)

lemma hsl_inj: "hsl a = hsl b \<Longrightarrow> a = b"
  by (auto simp: hsl_def dest: show_nat_inj)

lemma show_nat_digits: "c \<in> set (show_nat n) \<Longrightarrow> c \<in> set ''0123456789''"
proof (induction n rule: show_nat.induct)
  case (1 n)
  have d: "digit_char n \<in> set ''0123456789''"
    unfolding digit_char_def by (rule nth_mem) simp
  show ?case
  proof (cases "n < 10")
    case True
    with 1(2) d show ?thesis by (simp add: show_nat.simps[of n])
  next
    case False
    with 1(2) have "c \<in> set (show_nat (n div 10)) \<or> c = digit_char n"
      by (auto simp: show_nat.simps[of n])
    with 1(1)[OF False] d show ?thesis by blast
  qed
qed

lemma hue_number_hsl: "hue_number (hsl j) = 100 * j"
proof -
  have "\<forall>c \<in> set (show_nat (100 * j)). c \<noteq> CHR '',''"
    by (auto dest: show_nat_digits)
  then have "takeWhile (\<lambda>c. c \<noteq> CHR '','') (show_nat (100 * j) @ '', 70%, 30% )'')
               = show_nat (100 * j)"
    by (simp add: takeWhile_append2)
  then show ?thesis by (simp add: hue_number_def hsl_def read_nat_show_nat)
qed

lemma css_hue_hsl: "css_hue (hsl j) = (100 * j) mod 360"
  by (simp add: css_hue_def hue_number_hsl)

lemma coprime_18_5: "coprime (18::nat) 5"
  by (simp add: coprime_iff_gcd_eq_1 gcd_nat.simps[of 18 5] gcd_nat.simps[of 5 3]
        gcd_nat.simps[of 3 2] gcd_nat.simps[of 2 1])

lemma hue_cycle:
  assumes "m < n"
  shows "((100 * Suc m) mod 360 = (100 * Suc n) mod 360) = (18 dvd n - m)"
proof -
  from assms have "((100 * Suc n) mod 360 = (100 * Suc m) mod 360)
      = (360 dvd 100 * Suc n - 100 * Suc m)"
    by (intro mod_eq_dvd_iff_nat) simp
  also from assms have "100 * Suc n - 100 * Suc m = 20 * (5 * (n - m))"
    by (simp add: diff_mult_distrib2)
  also have "(360 dvd 20 * (5 * (n - m))) = (20 * 18 dvd 20 * (5 * (n - m)))" by simp
  also have "\<dots> = (18 dvd 5 * (n - m))" by (simp only: nat_mult_dvd_cancel_disj) simp
  also have "\<dots> = (18 dvd n - m)"
    using coprime_18_5 by (simp add: coprime_dvd_mult_right_iff)
  finally show ?thesis by (simp add: eq_commute)
qed

lemma initialize_scan:
  assumes "initialize sanitize f = Inr v"
  shows "foldl (\<lambda>s hit. record_hit hit s) ([], [], 0) (scan_hits sanitize (steps v))
           = (wp_targets v, wp_inputs v, length (wp_inputs v))
       \<and> coloured (wp_inputs v) (length (wp_inputs v))
       \<and> map fst (wp_inputs v) = first_seen (map fst (scan_hits sanitize (steps v)))"
proof -
  from assms obtain fs st where
    bs: "bind_steps sanitize (steps v)
           \<lparr>b_forms = fs, b_targets = [], b_params = [], b_count = 0\<rparr> = Inr st"
    and t: "wp_targets v = b_targets st" and i: "wp_inputs v = b_params st"
    by (rule initialize_parts)
  from bind_steps_state[OF bs]
  have f: "foldl (\<lambda>s hit. record_hit hit s) ([], [], 0) (scan_hits sanitize (steps v))
         = (wp_targets v, wp_inputs v, b_count st)"
    by (simp add: scan_state_def t i)
  have "coloured [] 0" by (simp add: coloured_def)
  from fold_hits_params[OF f this] have c: "coloured (wp_inputs v) (b_count st)"
    and k: "map fst (wp_inputs v) = first_seen (map fst (scan_hits sanitize (steps v)))"
    by simp_all
  from c have "b_count st = length (wp_inputs v)" by (simp add: coloured_def)
  with f c k show ?thesis by simp
qed

section \<open>Claims about the parameter scan\<close>

text \<open>C6, as the claim states it, fails: in the workflow with nineteen parameters the
  nineteenth parameter discovered gets the colour \<^verbatim>\<open>hsl( 1900, 70%, 30% )\<close>, whose hue, 1900
  degrees, is the hue 100 of the first parameter.\<close>

theorem nineteenth_hue_counterexample:
  "(case initialize escape_html example_nineteen_workflow of
      Inl e \<Rightarrow> []
    | Inr v \<Rightarrow>
        map (\<lambda>(n, l, p). (n, l, p_color p, css_hue (p_color p)))
          (filter (\<lambda>(n, x). n = 0 \<or> n = 18) (enumerate 0 (wp_inputs v))))
     = [(0, ''a'', ''hsl( 100, 70%, 30% )'', 100), (18, ''s'', ''hsl( 1900, 70%, 30% )'', 100)]"
  by code_simp

text \<open>C6, amended.  Within one form build the parameters are listed in the order of their
  discovery, and the parameter discovered as number \<open>n + 1\<close> carries the colour
  \<^verbatim>\<open>hsl( h, 70%, 30% )\<close> with \<open>h = 100 * (n + 1)\<close>.  The colour string differs from that of
  every parameter discovered before it; its hue, \<open>h\<close> modulo 360, is that of an earlier
  parameter with the number \<open>m + 1\<close> exactly when \<open>n - m\<close> is a multiple of 18.  So the
  first eighteen parameters have eighteen different hues, and every later parameter has
  the hue of the parameter discovered eighteen places before it.\<close>

theorem parameter_colours_differ:
  assumes "initialize sanitize f = Inr v" and "n < length (wp_inputs v)"
  shows "map fst (wp_inputs v) = first_seen (map fst (scan_hits sanitize (steps v)))
       \<and> p_color (snd (wp_inputs v ! n)) = ''hsl( '' @ show_nat (100 * (n + 1)) @ '', 70%, 30% )''
       \<and> (\<forall>m < n. p_color (snd (wp_inputs v ! m)) \<noteq> p_color (snd (wp_inputs v ! n)))
       \<and> css_hue (p_color (snd (wp_inputs v ! n))) = (100 * (n + 1)) mod 360
       \<and> (\<forall>m < n. (css_hue (p_color (snd (wp_inputs v ! m)))
                      = css_hue (p_color (snd (wp_inputs v ! n)))) = (18 dvd n - m))"
proof -
  from initialize_scan[OF assms(1)] have c: "coloured (wp_inputs v) (length (wp_inputs v))"
    and k: "map fst (wp_inputs v) = first_seen (map fst (scan_hits sanitize (steps v)))"
    by simp_all
  from c assms(2) have n: "p_color (snd (wp_inputs v ! n)) = hsl (Suc n)"
    by (simp add: coloured_def)
  have m: "p_color (snd (wp_inputs v ! m)) = hsl (Suc m)" if "m < n" for m
    using c that assms(2) by (simp add: coloured_def)
  have D: "\<forall>m < n. p_color (snd (wp_inputs v ! m)) \<noteq> p_color (snd (wp_inputs v ! n))"
    using m n by (auto dest: hsl_inj)
  have H: "css_hue (p_color (snd (wp_inputs v ! n))) = (100 * (n + 1)) mod 360"
    by (simp add: n css_hue_hsl)
  have "(css_hue (p_color (snd (wp_inputs v ! m))) = css_hue (p_color (snd (wp_inputs v ! n))))
          = (18 dvd n - m)" if "m < n" for m
    by (simp only: m[OF that] n css_hue_hsl hue_cycle[OF that])
  then have C: "\<forall>m < n. (css_hue (p_color (snd (wp_inputs v ! m)))
                      = css_hue (p_color (snd (wp_inputs v ! n)))) = (18 dvd n - m)"
    by blast
  have N: "p_color (snd (wp_inputs v ! n)) = ''hsl( '' @ show_nat (100 * (n + 1)) @ '', 70%, 30% )''"
    by (simp add: n hsl_def)
  show ?thesis by (rule conjI[OF k conjI[OF N conjI[OF D conjI[OF H C]]]])
qed

theorem parameter_colours_differ_witness:
  "\<not> isl (initialize escape_html example_params_workflow)
   \<and> 1 < length (wp_inputs (projr (initialize escape_html example_params_workflow)))
   \<and> map fst (wp_inputs (projr (initialize escape_html example_params_workflow)))
        = [''first'', ''second'']
   \<and> p_color (snd (wp_inputs (projr (initialize escape_html example_params_workflow)) ! 1))
        = ''hsl( 200, 70%, 30% )''
   \<and> p_color (snd (wp_inputs (projr (initialize escape_html example_params_workflow)) ! 0))
        \<noteq> p_color (snd (wp_inputs (projr (initialize escape_html example_params_workflow)) ! 1))
   \<and> css_hue (p_color (snd (wp_inputs (projr (initialize escape_html example_params_workflow)) ! 1)))
        = 200
   \<and> css_hue (p_color (snd (wp_inputs (projr (initialize escape_html example_params_workflow)) ! 0)))
        \<noteq> css_hue (p_color (snd (wp_inputs (projr (initialize escape_html example_params_workflow)) ! 1)))"
proof -
  let ?i = "initialize escape_html example_params_workflow"
  have h0: "\<not> isl ?i" by code_simp
  then have h1: "?i = Inr (projr ?i)" by (cases ?i) auto
  have h2: "1 < length (wp_inputs (projr ?i))" by code_simp
  have k: "map fst (wp_inputs (projr ?i)) = [''first'', ''second'']" by code_simp
  have sn: "show_nat 200 = ''200''" by code_simp
  note t = parameter_colours_differ[OF h1 h2]
  from t have c: "p_color (snd (wp_inputs (projr ?i) ! 1)) = ''hsl( 200, 70%, 30% )''"
    by (simp add: sn)
  from t have "\<forall>m < 1. p_color (snd (wp_inputs (projr ?i) ! m))
                 \<noteq> p_color (snd (wp_inputs (projr ?i) ! 1))"
    by (elim conjE)
  then have d: "p_color (snd (wp_inputs (projr ?i) ! 0)) \<noteq> p_color (snd (wp_inputs (projr ?i) ! 1))"
    by simp
  from t have "css_hue (p_color (snd (wp_inputs (projr ?i) ! 1))) = (100 * (1 + 1)) mod 360"
    by (elim conjE)
  then have e: "css_hue (p_color (snd (wp_inputs (projr ?i) ! 1))) = 200" by simp
  from t have "\<forall>m < 1. (css_hue (p_color (snd (wp_inputs (projr ?i) ! m)))
                 = css_hue (p_color (snd (wp_inputs (projr ?i) ! 1)))) = (18 dvd 1 - m)"
    by (elim conjE)
  then have g: "css_hue (p_color (snd (wp_inputs (projr ?i) ! 0)))
                 \<noteq> css_hue (p_color (snd (wp_inputs (projr ?i) ! 1)))"
    by simp
  from h0 h2 k c d e g show ?thesis by (intro conjI)
qed

lemma placeholder_braces:
  "is_placeholder (JStr (''${'' @ name @ ''}''))
   \<and> placeholder_name sanitize (JStr (''${'' @ name @ ''}'')) = sanitize (JStr name)"
  by (simp add: is_placeholder_def placeholder_name_def substring_def Let_def)

lemma scan_hits_mem:
  "(l, c, i) \<in> set (scan_hits sanitize ss) \<longleftrightarrow>
     (\<exists>s. (c, s) \<in> set ss \<and> i \<in> set (top_level (inputs s)) \<and> is_placeholder (i_value i)
          \<and> l = placeholder_name sanitize (i_value i))"
  by (auto simp: scan_hits_def)

lemma hits_names:
  "set (map fst (scan_hits sanitize ss)) =
     {placeholder_name sanitize (i_value i) | c s i.
        (c, s) \<in> set ss \<and> i \<in> set (top_level (inputs s)) \<and> is_placeholder (i_value i)}"
proof (rule set_eqI)
  fix l
  have "l \<in> set (map fst (scan_hits sanitize ss)) \<longleftrightarrow> (\<exists>c i. (l, c, i) \<in> set (scan_hits sanitize ss))"
    by (simp add: image_iff) (metis fst_conv prod_cases3)
  also have "\<dots> \<longleftrightarrow> (\<exists>c s i. l = placeholder_name sanitize (i_value i)
       \<and> (c, s) \<in> set ss \<and> i \<in> set (top_level (inputs s)) \<and> is_placeholder (i_value i))"
    unfolding scan_hits_mem by blast
  finally show "l \<in> set (map fst (scan_hits sanitize ss)) \<longleftrightarrow>
      l \<in> {placeholder_name sanitize (i_value i) | c s i.
        (c, s) \<in> set ss \<and> i \<in> set (top_level (inputs s)) \<and> is_placeholder (i_value i)}"
    by simp
qed

lemma hits_handles:
  "set (map (\<lambda>hit. (fst (snd hit), i_id (snd (snd hit))))
          (filter (\<lambda>hit. fst hit = c) (scan_hits sanitize ss))) =
     {(k, i_id i) | k s i.
        (k, s) \<in> set ss \<and> i \<in> set (top_level (inputs s)) \<and> is_placeholder (i_value i)
        \<and> placeholder_name sanitize (i_value i) = c}"
proof (rule set_eqI)
  fix d :: "nat \<times> string"
  obtain k x where d: "d = (k, x)" by (cases d)
  have "d \<in> set (map (\<lambda>hit. (fst (snd hit), i_id (snd (snd hit))))
          (filter (\<lambda>hit. fst hit = c) (scan_hits sanitize ss)))
        \<longleftrightarrow> (\<exists>i. (c, k, i) \<in> set (scan_hits sanitize ss) \<and> x = i_id i)"
    unfolding d by (auto simp: image_iff)
  also have "\<dots> \<longleftrightarrow> (\<exists>s i. x = i_id i \<and> (k, s) \<in> set ss \<and> i \<in> set (top_level (inputs s))
        \<and> is_placeholder (i_value i) \<and> placeholder_name sanitize (i_value i) = c)"
    unfolding scan_hits_mem by blast
  finally show "d \<in> set (map (\<lambda>hit. (fst (snd hit), i_id (snd (snd hit))))
          (filter (\<lambda>hit. fst hit = c) (scan_hits sanitize ss)))
      \<longleftrightarrow> d \<in> {(k, i_id i) | k s i.
        (k, s) \<in> set ss \<and> i \<in> set (top_level (inputs s)) \<and> is_placeholder (i_value i)
        \<and> placeholder_name sanitize (i_value i) = c}"
    unfolding d by simp
qed

subsection \<open>The scan raises no exception\<close>

lemma prepare_step_registers:
  assumes "known_type (step_type b0)" and "prepare_step f b0 = (h, b)"
  shows "\<exists>a. h = Some a \<and> registers a b"
proof -
  have r: "registers (make_form title (all_nodes (inputs s))) s" for title s
    using top_level_all_nodes[of "inputs s"]
    by (auto simp: registers_def make_form_def image_iff) force+
  have t: "step_type (merge_defaults f b0) = step_type b0" by (simp add: merge_defaults_def)
  from assms show ?thesis
    by (auto simp: prepare_step_def known_type_def Let_def t r split: if_splits)
qed

lemma obj_put_all2:
  assumes "list_all2 R fs ss" and "\<And>p q. R p q \<Longrightarrow> fst p = fst q" and "R (k, h) (k, b)"
  shows "list_all2 R (obj_put k h fs) (obj_put k b ss)"
  using assms(1)
proof (induction rule: list_all2_induct)
  case Nil
  with assms(3) show ?case by simp
next
  case (Cons p fs q ss)
  obtain k1 h1 where p: "p = (k1, h1)" by (cases p)
  obtain k2 b2 where q: "q = (k2, b2)" by (cases q)
  from assms(2)[OF Cons.hyps(1)] p q have "k1 = k2" by simp
  with Cons assms(3) p q show ?case by auto
qed

lemma prepare_steps_paired:
  "paired fs ss \<Longrightarrow> \<forall>b \<in> set bs. known_type (step_type b) \<Longrightarrow>
     prepare_steps f bs (fs, ss) = (fs', ss') \<Longrightarrow> paired fs' ss'"
proof (induction bs arbitrary: f fs ss)
  case Nil
  then show ?case by simp
next
  case (Cons b0 bs)
  obtain h b where pb: "prepare_step f b0 = (h, b)" by (cases "prepare_step f b0")
  from Cons.prems(2) have "known_type (step_type b0)" by simp
  from prepare_step_registers[OF this pb] obtain a where a: "h = Some a" "registers a b" by blast
  have "paired (obj_put (step_id b) h fs) (obj_put (step_id b) b ss)"
    unfolding paired_def
    by (rule obj_put_all2[OF Cons.prems(1)[unfolded paired_def]]) (auto simp: a)
  from Cons.IH[OF this] Cons.prems(2,3) pb show ?case by simp
qed

lemma paired_ready:
  assumes "paired fs ss" and "distinct (map fst ss)"
  shows "ready fs ss \<and> all_some fs"
proof -
  from assms(1) have k: "map fst fs = map fst ss"
    unfolding paired_def by (induction rule: list_all2_induct) auto
  have "\<exists>a. map_of fs c = Some (Some a) \<and> registers a s" if cs: "(c, s) \<in> set ss" for c s
  proof -
    from cs obtain n where n: "n < length ss" "ss ! n = (c, s)" by (auto simp: in_set_conv_nth)
    from assms(1) n have len: "n < length fs" and
      r: "fst (fs ! n) = c \<and> (\<exists>a. snd (fs ! n) = Some a \<and> registers a s)"
      by (auto simp: paired_def list_all2_conv_all_nth)
    then obtain a where a: "fs ! n = (c, Some a)" "registers a s"
      by (cases "fs ! n") auto
    from len a have "(c, Some a) \<in> set fs" by (metis nth_mem)
    moreover from assms(2) k have "distinct (map fst fs)" by simp
    ultimately have "map_of fs c = Some (Some a)" by simp
    with a show ?thesis by blast
  qed
  moreover have "h \<noteq> None" if "(k', h) \<in> set fs" for k' h
  proof -
    from that obtain n where n: "n < length fs" "fs ! n = (k', h)" by (auto simp: in_set_conv_nth)
    with assms(1) show ?thesis by (auto simp: paired_def list_all2_conv_all_nth)
  qed
  ultimately show ?thesis by (auto simp: ready_def all_some_def)
qed

lemma bind_input_forms:
  assumes "bind_input sanitize c b st = Inr st'" and "is_placeholder (i_value b)"
  obtains frm frm' where "map_of (b_forms st) c = Some (Some frm)"
    and "b_forms st' = modify c (\<lambda>x. Some frm') (b_forms st)"
    and "map fst (field_list frm') = map fst (field_list frm)"
    and "map fst (element_list frm') = map fst (element_list frm)"
  using assms
  by (auto simp: bind_input_def Let_def map_fst_modify split: option.splits if_splits prod.splits)

lemma bind_input_ready:
  assumes "bind_input sanitize c b st = Inr st'" and "ready (b_forms st) ss" and "all_some (b_forms st)"
  shows "ready (b_forms st') ss \<and> all_some (b_forms st')"
proof (cases "is_placeholder (i_value b)")
  case False
  with assms show ?thesis by (simp add: bind_input_def)
next
  case True
  from bind_input_forms[OF assms(1) True] obtain frm frm' where
    frm: "map_of (b_forms st) c = Some (Some frm)"
    and st': "b_forms st' = modify c (\<lambda>x. Some frm') (b_forms st)"
    and fl: "map fst (field_list frm') = map fst (field_list frm)"
    and el: "map fst (element_list frm') = map fst (element_list frm)"
    by blast
  from fl have fl': "fst ` set (field_list frm') = fst ` set (field_list frm)"
    by (metis set_map)
  from el have el': "fst ` set (element_list frm') = fst ` set (element_list frm)"
    by (metis set_map)
  have "\<exists>a. map_of (b_forms st') k = Some (Some a) \<and> registers a s" if "(k, s) \<in> set ss" for k s
  proof -
    from assms(2) that obtain a where a: "map_of (b_forms st) k = Some (Some a)" "registers a s"
      by (auto simp: ready_def)
    show ?thesis
    proof (cases "k = c")
      case True
      with a frm have "a = frm" by simp
      with a(2) fl' el' have "registers frm' s" by (simp add: registers_def)
      with True frm show ?thesis by (simp add: st' map_of_modify)
    next
      case False
      with a show ?thesis by (simp add: st' map_of_modify)
    qed
  qed
  moreover have "h \<noteq> None" if "(k, h) \<in> set (b_forms st')" for k h
    using that assms(3) unfolding st' by (auto simp: all_some_def dest!: set_modify)
  ultimately show ?thesis by (auto simp: ready_def all_some_def)
qed

lemma bind_input_ok:
  assumes "ready (b_forms st) ss" and "(c, s) \<in> set ss" and "b \<in> set (top_level (inputs s))"
    and "is_placeholder (i_value b) \<longrightarrow>
           placeholder_name sanitize (i_value b) \<notin> set object_prototype_keys"
  shows "\<exists>st'. bind_input sanitize c b st = Inr st'"
proof -
  from assms(1,2) obtain a where a: "map_of (b_forms st) c = Some (Some a)" "registers a s"
    by (auto simp: ready_def)
  from a(2) assms(3) have "i_id b \<in> fst ` set (field_list a)" "i_id b \<in> fst ` set (element_list a)"
    by (auto simp: registers_def)
  then have "map_of (field_list a) (i_id b) \<noteq> None" "map_of (element_list a) (i_id b) \<noteq> None"
    by (simp_all add: map_of_eq_None_iff)
  with a(1) assms(4) show ?thesis
    by (auto simp: bind_input_def Let_def split: prod.splits)
qed

lemma bind_inputs_ok:
  assumes "ready (b_forms st) ss" and "all_some (b_forms st)" and "(c, s) \<in> set ss"
    and "set bs \<subseteq> set (top_level (inputs s))"
    and "\<forall>b \<in> set bs. is_placeholder (i_value b) \<longrightarrow>
           placeholder_name sanitize (i_value b) \<notin> set object_prototype_keys"
  shows "\<exists>st'. bind_inputs sanitize c bs st = Inr st'
           \<and> ready (b_forms st') ss \<and> all_some (b_forms st')"
  using assms(1,2,4,5)
proof (induction bs arbitrary: st)
  case Nil
  then show ?case by simp
next
  case (Cons b bs)
  from Cons.prems(3,4) have "b \<in> set (top_level (inputs s))"
    and "is_placeholder (i_value b) \<longrightarrow>
           placeholder_name sanitize (i_value b) \<notin> set object_prototype_keys"
    by auto
  from bind_input_ok[OF Cons.prems(1) assms(3) this] obtain st1 where
    1: "bind_input sanitize c b st = Inr st1" by blast
  from bind_input_ready[OF 1 Cons.prems(1,2)] have r: "ready (b_forms st1) ss"
    and a: "all_some (b_forms st1)" by simp_all
  from Cons.prems(3,4) have "set bs \<subseteq> set (top_level (inputs s))"
    and "\<forall>b \<in> set bs. is_placeholder (i_value b) \<longrightarrow>
           placeholder_name sanitize (i_value b) \<notin> set object_prototype_keys"
    by auto
  from Cons.IH[OF r a this] 1 show ?case by simp
qed

lemma bind_steps_ok:
  assumes "ready (b_forms st) ss" and "all_some (b_forms st)" and "set rest \<subseteq> set ss"
    and "\<forall>(l, c, i) \<in> set (scan_hits sanitize rest). l \<notin> set object_prototype_keys"
  shows "\<exists>st'. bind_steps sanitize rest st = Inr st' \<and> all_some (b_forms st')"
  using assms
proof (induction rest arbitrary: st)
  case Nil
  then show ?case by simp
next
  case (Cons p rest)
  obtain c s where p: "p = (c, s)" by (cases p)
  from Cons.prems(3) p have cs: "(c, s) \<in> set ss" and sub: "set rest \<subseteq> set ss" by auto
  have n1: "\<forall>b \<in> set (top_level (inputs s)). is_placeholder (i_value b) \<longrightarrow>
           placeholder_name sanitize (i_value b) \<notin> set object_prototype_keys"
  proof (intro ballI impI)
    fix b assume "b \<in> set (top_level (inputs s))" and "is_placeholder (i_value b)"
    then have "(placeholder_name sanitize (i_value b), c, b) \<in> set (scan_hits sanitize (p # rest))"
      unfolding scan_hits_mem p by auto
    with Cons.prems(4) show "placeholder_name sanitize (i_value b) \<notin> set object_prototype_keys"
      by blast
  qed
  have "set (scan_hits sanitize rest) \<subseteq> set (scan_hits sanitize (p # rest))"
    by (auto simp: scan_hits_def)
  with Cons.prems(4) have
    n2: "\<forall>(l, c, i) \<in> set (scan_hits sanitize rest). l \<notin> set object_prototype_keys"
    by blast
  from bind_inputs_ok[OF Cons.prems(1,2) cs subset_refl n1] obtain st1 where
    1: "bind_inputs sanitize c (top_level (inputs s)) st = Inr st1"
    and r: "ready (b_forms st1) ss" and a: "all_some (b_forms st1)" by blast
  from Cons.IH[OF r a sub n2] 1 show ?case by (simp add: p)
qed

lemma layout_forms_ok: "all_some fs \<Longrightarrow> \<exists>fs'. layout_forms fs = Inr fs'"
  by (induction fs rule: layout_forms.induct) (auto simp: all_some_def)

lemma initialize_ok:
  assumes "\<forall>b \<in> set (wf_steps f). known_type (step_type b)"
    and "\<forall>(l, c, i) \<in> set (scan_hits sanitize (prepared_steps f)). l \<notin> set object_prototype_keys"
  shows "\<exists>v. initialize sanitize f = Inr v"
proof -
  obtain fs ss where ps: "prepare_steps 0 (wf_steps f) ([], []) = (fs, ss)"
    by (cases "prepare_steps 0 (wf_steps f) ([], [])")
  then have ss: "prepared_steps f = ss" by (simp add: prepared_steps_def)
  have "paired [] []" by (simp add: paired_def)
  from prepare_steps_paired[OF this assms(1) ps] have pa: "paired fs ss" .
  have "prepared [] []" by (simp add: prepared_def)
  from prepare_steps_prepared[OF this ps] have "distinct (map fst ss)"
    by (simp add: prepared_def strict_sorted_iff)
  from paired_ready[OF pa this] have r: "ready fs ss" and a: "all_some fs" by simp_all
  let ?st = "\<lparr>b_forms = fs, b_targets = [], b_params = [], b_count = 0\<rparr>"
  from r a have "ready (b_forms ?st) ss" "all_some (b_forms ?st)" by simp_all
  from bind_steps_ok[OF this subset_refl assms(2)[unfolded ss]] obtain st where
    bs: "bind_steps sanitize ss ?st = Inr st" and a': "all_some (b_forms st)" by blast
  from layout_forms_ok[OF a'] obtain fs' where "layout_forms (b_forms st) = Inr fs'" by blast
  with ps bs show ?thesis by (simp add: initialize_def)
qed

lemma initialize_steps: "initialize sanitize f = Inr v \<Longrightarrow> steps v = prepared_steps f"
  by (auto simp: prepared_steps_def elim!: initialize_parts)

subsection \<open>The exception that the scan raises\<close>

lemma bind_input_names:
  "bind_input sanitize c b st = Inr st' \<Longrightarrow> is_placeholder (i_value b) \<Longrightarrow>
     placeholder_name sanitize (i_value b) \<notin> set object_prototype_keys"
  by (auto simp: bind_input_def Let_def split: option.splits if_splits)

lemma bind_inputs_names:
  "bind_inputs sanitize c bs st = Inr st' \<Longrightarrow>
     \<forall>b \<in> set bs. is_placeholder (i_value b) \<longrightarrow>
        placeholder_name sanitize (i_value b) \<notin> set object_prototype_keys"
proof (induction bs arbitrary: st)
  case Nil
  then show ?case by simp
next
  case (Cons b bs)
  from Cons.prems obtain st1 where 1: "bind_input sanitize c b st = Inr st1"
    and 2: "bind_inputs sanitize c bs st1 = Inr st'"
    by (auto split: sum.splits)
  from Cons.IH[OF 2] bind_input_names[OF 1] show ?case by simp
qed

lemma bind_steps_names:
  "bind_steps sanitize ss st = Inr st' \<Longrightarrow>
     \<forall>(l, c, i) \<in> set (scan_hits sanitize ss). l \<notin> set object_prototype_keys"
proof (induction ss arbitrary: st)
  case Nil
  then show ?case by (simp add: scan_hits_def)
next
  case (Cons p ss)
  obtain c b where p: "p = (c, b)" by (cases p)
  from Cons.prems p obtain st1 where 1: "bind_inputs sanitize c (top_level (inputs b)) st = Inr st1"
    and 2: "bind_steps sanitize ss st1 = Inr st'"
    by (auto split: sum.splits)
  show ?case
  proof (clarify)
    fix l k i
    assume "(l, k, i) \<in> set (scan_hits sanitize (p # ss))"
      and inh: "l \<in> set object_prototype_keys"
    then obtain s where s: "(k, s) \<in> set (p # ss)" and i: "i \<in> set (top_level (inputs s))"
      and pl: "is_placeholder (i_value i)" and l: "l = placeholder_name sanitize (i_value i)"
      unfolding scan_hits_mem by blast
    show False
    proof (cases "(k, s) = (c, b)")
      case True
      with bind_inputs_names[OF 1] i pl l inh show False by auto
    next
      case False
      with s p have "(k, s) \<in> set ss" by auto
      with i pl l have "(l, k, i) \<in> set (scan_hits sanitize ss)"
        unfolding scan_hits_mem by blast
      with Cons.IH[OF 2] inh show False by blast
    qed
  qed
qed

lemma bind_input_error: "bind_input sanitize c b st = Inl e \<Longrightarrow> e = TypeError"
  by (auto simp: bind_input_def Let_def split: option.splits if_splits prod.splits)

lemma bind_inputs_error: "bind_inputs sanitize c bs st = Inl e \<Longrightarrow> e = TypeError"
  by (induction bs arbitrary: st) (auto split: sum.splits dest: bind_input_error)

lemma bind_steps_error: "bind_steps sanitize ss st = Inl e \<Longrightarrow> e = TypeError"
proof (induction ss arbitrary: st)
  case Nil
  then show ?case by simp
next
  case (Cons p ss)
  obtain c b where p: "p = (c, b)" by (cases p)
  from Cons.prems Cons.IH show ?case
    by (auto simp: p split: sum.splits dest: bind_inputs_error)
qed

lemma layout_forms_error: "layout_forms fs = Inl e \<Longrightarrow> e = TypeError"
  by (induction fs rule: layout_forms.induct) (auto split: sum.splits)

lemma initialize_error: "initialize sanitize f = Inl e \<Longrightarrow> e = TypeError"
  by (auto simp: initialize_def split: prod.splits sum.splits
           dest: bind_steps_error layout_forms_error)

text \<open>An input that the scan recognises and whose name every object inherits, such as
  \<^verbatim>\<open>${constructor}\<close>, makes the form build raise a type error.\<close>

lemma inherited_name_raises:
  assumes "(l, c, i) \<in> set (scan_hits sanitize (prepared_steps f))"
    and "l \<in> set object_prototype_keys"
  shows "initialize sanitize f = Inl TypeError"
proof (cases "initialize sanitize f")
  case (Inl e)
  then show ?thesis by (simp add: initialize_error)
next
  case (Inr v)
  then obtain fs st where "bind_steps sanitize (steps v)
      \<lparr>b_forms = fs, b_targets = [], b_params = [], b_count = 0\<rparr> = Inr st"
    by (rule initialize_parts)
  from bind_steps_names[OF this] initialize_steps[OF Inr] assms show ?thesis by auto
qed

subsection \<open>The parameters and their targets\<close>

text \<open>C1, as the claim states it, fails.  For the input values \<^verbatim>\<open>$color$\<close>, \<^verbatim>\<open>$a$\<close> and
  \<^verbatim>\<open>$b$\<close>, whose names by the pattern of the specification are \<open>color\<close>, \<open>a\<close> and \<open>b\<close>,
  the scan discovers the two parameters \<open>olor\<close> and the empty name, and the empty name
  has the fields of both \<^verbatim>\<open>$a$\<close> and \<^verbatim>\<open>$b$\<close> as targets.  An input nested in a section is
  rendered as a field but not visited by the scan: neither \<^verbatim>\<open>$inner$\<close> nor \<^verbatim>\<open>${deep}\<close>
  yields a parameter.  For the value \<^verbatim>\<open>${constructor}\<close> the form build raises a type
  error.\<close>

theorem dollar_placeholder_counterexample:
  "\<not> isl (initialize escape_html example_dollar_workflow)
   \<and> map (\<lambda>i. dollar_name (js_string (i_value i)))
        (top_level (inputs (step_at (projr (initialize escape_html example_dollar_workflow)) 1)))
       = [Some ''color'', Some ''a'', Some ''b'']
   \<and> map escape_html [JStr ''color'', JStr ''a'', JStr ''b''] = [''color'', ''a'', ''b'']
   \<and> map fst (wp_inputs (projr (initialize escape_html example_dollar_workflow)))
       = [''olor'', []]
   \<and> wp_targets (projr (initialize escape_html example_dollar_workflow))
       = [(''olor'', [(1, ''p1'')]), ([], [(1, ''p2''), (1, ''p3'')])]
   \<and> \<not> isl (initialize escape_html example_nested_workflow)
   \<and> map (\<lambda>i. (i_id i, dollar_name (js_string (i_value i)), is_placeholder (i_value i)))
        (all_nodes (inputs (step_at (projr (initialize escape_html example_nested_workflow)) 1)))
       = [(''s1'', None, False), (''s2'', Some ''inner'', True), (''s3'', None, True)]
   \<and> map fst (field_list (form_of (projr (initialize escape_html example_nested_workflow)) 1))
       = [''s1'', ''s2'', ''s3'']
   \<and> map fst (wp_inputs (projr (initialize escape_html example_nested_workflow))) = []
   \<and> wp_targets (projr (initialize escape_html example_nested_workflow)) = []
   \<and> is_placeholder (JStr ''${constructor}'')
   \<and> placeholder_name escape_html (JStr ''${constructor}'') = ''constructor''
   \<and> (case initialize escape_html example_inherited_workflow of
         Inl e \<Rightarrow> e = TypeError | Inr v \<Rightarrow> False)"
  by code_simp

text \<open>C1, amended.  The scan visits the inputs that each step lists itself, recognises a
  value by the leading \<^verbatim>\<open>$\<close> of its string form, and takes as name the sanitised text
  from the third character up to the last character exclusive, which is \<open>name\<close> for a
  value \<^verbatim>\<open>${name}\<close>.  For a workflow whose steps have one of the three step types and in
  which no extracted name is a property that every object inherits, the form build
  completes, the discovered parameters hold exactly one entry per distinct name so
  extracted, and on a change event a field is written with the value of a parameter if
  and only if its input referenced that parameter.\<close>

theorem parameters_one_per_name:
  assumes "\<forall>b \<in> set (wf_steps f). known_type (step_type b)"
    and "\<forall>(l, c, i) \<in> set (scan_hits sanitize (prepared_steps f)). l \<notin> set object_prototype_keys"
  shows "(\<exists>v. initialize sanitize f = Inr v
          \<and> steps v = prepared_steps f
          \<and> distinct (map fst (wp_inputs v))
          \<and> set (map fst (wp_inputs v)) =
              {placeholder_name sanitize (i_value i) | c s i.
                 (c, s) \<in> set (steps v) \<and> i \<in> set (top_level (inputs s))
                 \<and> is_placeholder (i_value i)}
          \<and> (\<forall>changes d x.
                ((d, x) \<in> set (change_writes sanitize (wp_targets v) changes)) =
                (\<exists>c b k s i. (c, b) \<in> set changes \<and> d = (k, i_id i)
                   \<and> (k, s) \<in> set (steps v) \<and> i \<in> set (top_level (inputs s))
                   \<and> is_placeholder (i_value i)
                   \<and> placeholder_name sanitize (i_value i) = c
                   \<and> x = (if sanitize b = [] then c else sanitize b))))
       \<and> (\<forall>name. is_placeholder (JStr (''${'' @ name @ ''}''))
             \<and> placeholder_name sanitize (JStr (''${'' @ name @ ''}'')) = sanitize (JStr name))"
proof -
  from initialize_ok[OF assms] obtain v where v: "initialize sanitize f = Inr v" by blast
  let ?hits = "scan_hits sanitize (steps v)"
  from initialize_scan[OF v] have
    f: "foldl (\<lambda>s hit. record_hit hit s) ([], [], 0) ?hits
          = (wp_targets v, wp_inputs v, length (wp_inputs v))"
    and k: "map fst (wp_inputs v) = first_seen (map fst ?hits)"
    by simp_all
  have A: "distinct (map fst (wp_inputs v))" by (simp add: k)
  have "set (map fst (wp_inputs v)) = set (map fst ?hits)"
    unfolding k by (rule first_seen_set)
  then have B: "set (map fst (wp_inputs v)) =
           {placeholder_name sanitize (i_value i) | c s i.
              (c, s) \<in> set (steps v) \<and> i \<in> set (top_level (inputs s))
              \<and> is_placeholder (i_value i)}"
    by (simp only: hits_names)
  have T: "set (targets_of (wp_targets v) c) =
             {(k, i_id i) | k s i.
                (k, s) \<in> set (steps v) \<and> i \<in> set (top_level (inputs s))
                \<and> is_placeholder (i_value i)
                \<and> placeholder_name sanitize (i_value i) = c}" for c
  proof -
    from fold_hits_targets[OF f, of c]
    have "targets_of (wp_targets v) c =
               map (\<lambda>hit. (fst (snd hit), i_id (snd (snd hit)))) (filter (\<lambda>hit. fst hit = c) ?hits)"
      by (simp add: targets_of_def)
    then show ?thesis by (simp only: hits_handles)
  qed
  have C: "((d, x) \<in> set (change_writes sanitize (wp_targets v) changes)) =
             (\<exists>c b k s i. (c, b) \<in> set changes \<and> d = (k, i_id i)
                \<and> (k, s) \<in> set (steps v) \<and> i \<in> set (top_level (inputs s))
                \<and> is_placeholder (i_value i)
                \<and> placeholder_name sanitize (i_value i) = c
                \<and> x = (if sanitize b = [] then c else sanitize b))" for changes d x
  proof -
    have "((d, x) \<in> set (change_writes sanitize (wp_targets v) changes)) =
            (\<exists>c b. (c, b) \<in> set changes \<and> d \<in> set (targets_of (wp_targets v) c)
               \<and> x = (if sanitize b = [] then c else sanitize b))"
      unfolding change_writes_iff pushed_value_def by auto
    also have "\<dots> = (\<exists>c b k s i. (c, b) \<in> set changes \<and> d = (k, i_id i)
                \<and> (k, s) \<in> set (steps v) \<and> i \<in> set (top_level (inputs s))
                \<and> is_placeholder (i_value i)
                \<and> placeholder_name sanitize (i_value i) = c
                \<and> x = (if sanitize b = [] then c else sanitize b))"
      unfolding T by blast
    finally show ?thesis .
  qed
  have C': "\<forall>changes d x.
             ((d, x) \<in> set (change_writes sanitize (wp_targets v) changes)) =
             (\<exists>c b k s i. (c, b) \<in> set changes \<and> d = (k, i_id i)
                \<and> (k, s) \<in> set (steps v) \<and> i \<in> set (top_level (inputs s))
                \<and> is_placeholder (i_value i)
                \<and> placeholder_name sanitize (i_value i) = c
                \<and> x = (if sanitize b = [] then c else sanitize b))"
    by (intro allI) (rule C)
  have P: "\<forall>name. is_placeholder (JStr (''${'' @ name @ ''}''))
             \<and> placeholder_name sanitize (JStr (''${'' @ name @ ''}'')) = sanitize (JStr name)"
    by (intro allI) (rule placeholder_braces)
  have "initialize sanitize f = Inr v
          \<and> steps v = prepared_steps f
          \<and> distinct (map fst (wp_inputs v))
          \<and> set (map fst (wp_inputs v)) =
              {placeholder_name sanitize (i_value i) | c s i.
                 (c, s) \<in> set (steps v) \<and> i \<in> set (top_level (inputs s))
                 \<and> is_placeholder (i_value i)}
          \<and> (\<forall>changes d x.
                ((d, x) \<in> set (change_writes sanitize (wp_targets v) changes)) =
                (\<exists>c b k s i. (c, b) \<in> set changes \<and> d = (k, i_id i)
                   \<and> (k, s) \<in> set (steps v) \<and> i \<in> set (top_level (inputs s))
                   \<and> is_placeholder (i_value i)
                   \<and> placeholder_name sanitize (i_value i) = c
                   \<and> x = (if sanitize b = [] then c else sanitize b)))"
    by (rule conjI[OF v conjI[OF initialize_steps[OF v] conjI[OF A conjI[OF B C']]]])
  then have E: "\<exists>v. initialize sanitize f = Inr v
          \<and> steps v = prepared_steps f
          \<and> distinct (map fst (wp_inputs v))
          \<and> set (map fst (wp_inputs v)) =
              {placeholder_name sanitize (i_value i) | c s i.
                 (c, s) \<in> set (steps v) \<and> i \<in> set (top_level (inputs s))
                 \<and> is_placeholder (i_value i)}
          \<and> (\<forall>changes d x.
                ((d, x) \<in> set (change_writes sanitize (wp_targets v) changes)) =
                (\<exists>c b k s i. (c, b) \<in> set changes \<and> d = (k, i_id i)
                   \<and> (k, s) \<in> set (steps v) \<and> i \<in> set (top_level (inputs s))
                   \<and> is_placeholder (i_value i)
                   \<and> placeholder_name sanitize (i_value i) = c
                   \<and> x = (if sanitize b = [] then c else sanitize b)))"
    by (rule exI)
  from E P show ?thesis by (rule conjI)
qed

theorem parameters_one_per_name_witness:
  "map step_type (wf_steps example_params_workflow) = [''tool'', ''tool'']
   \<and> map fst (scan_hits escape_html (prepared_steps example_params_workflow))
        = [''first'', ''second'', ''first'']
   \<and> \<not> isl (initialize escape_html example_params_workflow)
   \<and> distinct (map fst (wp_inputs (projr (initialize escape_html example_params_workflow))))
   \<and> map fst (wp_inputs (projr (initialize escape_html example_params_workflow)))
        = [''first'', ''second'']
   \<and> map fst (change_writes escape_html
         (wp_targets (projr (initialize escape_html example_params_workflow)))
         [(''first'', JStr ''red'')]) = [(1, ''q1''), (2, ''q3'')]"
proof -
  let ?i = "initialize escape_html example_params_workflow"
  have h1: "\<forall>b \<in> set (wf_steps example_params_workflow). known_type (step_type b)"
    by code_simp
  have h2: "\<forall>(l, c, i) \<in> set (scan_hits escape_html (prepared_steps example_params_workflow)).
              l \<notin> set object_prototype_keys"
    by code_simp
  from parameters_one_per_name[OF h1 h2] obtain v where v: "?i = Inr v"
    and d: "distinct (map fst (wp_inputs v))"
    by (elim conjE exE)
  from v have h0: "\<not> isl ?i" and p: "projr ?i = v" by simp_all
  from d p have d': "distinct (map fst (wp_inputs (projr ?i)))" by simp
  have k: "map fst (wp_inputs (projr ?i)) = [''first'', ''second'']" by code_simp
  have w: "map fst (change_writes escape_html (wp_targets (projr ?i)) [(''first'', JStr ''red'')])
             = [(1, ''q1''), (2, ''q3'')]" by code_simp
  have t: "map step_type (wf_steps example_params_workflow) = [''tool'', ''tool'']"
    by code_simp
  have n: "map fst (scan_hits escape_html (prepared_steps example_params_workflow))
             = [''first'', ''second'', ''first'']"
    by code_simp
  from t n h0 d' k w show ?thesis by (intro conjI)
qed

section \<open>Claims about normalisation\<close>

lemma join_Cons: "join sep (x # xs) = x @ concat (map (\<lambda>y. sep @ y) xs)"
  by (induction xs arbitrary: x) auto

lemma provenance_step_description:
  "provenance_step a b = (if a \<noteq> [] then a @ '', '' else a) @ output_description b"
  by (simp add: provenance_step_def output_description_def)

lemma foldl_provenance:
  "a \<noteq> [] \<Longrightarrow> foldl provenance_step a cs = a @ concat (map (\<lambda>b. '', '' @ output_description b) cs)"
proof (induction cs arbitrary: a)
  case Nil
  then show ?case by simp
next
  case (Cons c cs)
  have "provenance_step a c \<noteq> []" by (simp add: provenance_step_def)
  from Cons.IH[OF this] Cons.prems show ?case
    by (simp add: provenance_step_description)
qed

lemma provenance_join: "provenance cs = join '', '' (map output_description cs)"
proof (cases cs)
  case Nil
  then show ?thesis by (simp add: provenance_def)
next
  case (Cons c cs')
  have ne: "provenance_step [] c \<noteq> []" by (simp add: provenance_step_def)
  have "provenance_step [] c = output_description c"
    by (simp add: provenance_step_description)
  with foldl_provenance[OF ne, of cs'] show ?thesis
    by (simp add: Cons provenance_def join_Cons comp_def)
qed

lemma prepare_steps_mem:
  "prepare_steps f bs (fs, ss) = (fs', ss') \<Longrightarrow> (c, s) \<in> set ss' \<Longrightarrow>
     (c, s) \<in> set ss \<or> (\<exists>f' b0 h. b0 \<in> set bs \<and> prepare_step f' b0 = (h, s))"
proof (induction bs arbitrary: f fs ss)
  case Nil
  then show ?case by simp
next
  case (Cons b0 bs)
  obtain h b where pb: "prepare_step f b0 = (h, b)" by (cases "prepare_step f b0")
  with Cons.prems(1) have "prepare_steps (Suc f) bs
      (obj_put (step_id b) h fs, obj_put (step_id b) b ss) = (fs', ss')" by simp
  from Cons.IH[OF this Cons.prems(2)] show ?case
  proof
    assume "(c, s) \<in> set (obj_put (step_id b) b ss)"
    with set_obj_put[of "step_id b" b ss] have "(c, s) = (step_id b, b) \<or> (c, s) \<in> set ss"
      by blast
    with pb show ?thesis by auto
  next
    assume "\<exists>f' b0 h. b0 \<in> set bs \<and> prepare_step f' b0 = (h, s)"
    then show ?thesis by auto
  qed
qed

lemma context_input_fields:
  "i_name (context_input a b) = i_name a \<and> i_type (context_input a b) = i_type a
   \<and> i_value (context_input a b) = i_value a \<and> i_options (context_input a b) = i_options a
   \<and> i_help (context_input a b) = i_help a \<and> i_id (context_input a b) = i_id a"
  by (simp add: context_input_def)

lemma matchContext_mem:
  assumes "i \<in> set (all_nodes (matchContext ins context_input))"
  obtains i2 where "i2 \<in> set (all_nodes ins)" and "i_name i = i_name i2" and "i_type i = i_type i2"
    and "i_value i = i_value i2" and "i_options i = i_options i2" and "i_help i = i_help i2"
    and "i_id i = i_id i2"
  using assms
  by (auto simp: matchContext_def all_nodes_map context_input_fields split: option.splits)

lemma normalize_tool_connected:
  assumes "i \<in> set (all_nodes (inputs (normalize_tool b)))"
    and "map_of (input_connections_by_name b) (i_name i) = Some conns"
  shows "i_type i = JStr ''hidden'' \<and> i_value i = JStr [] \<and> i_options i = JNull
       \<and> i_help i = JStr (provenance conns)"
proof -
  let ?ins1 = "deepeach (inputs b) visit_input"
  let ?ins2 = "matchIds ?ins1 (input_connections_by_name b) connect_input"
  from assms(1) have "i \<in> set (all_nodes (matchContext ?ins2 context_input))"
    by (simp add: normalize_tool_def Let_def)
  then obtain i2 where i2: "i2 \<in> set (all_nodes ?ins2)" and n: "i_name i = i_name i2"
    and f: "i_type i = i_type i2" "i_value i = i_value i2" "i_options i = i_options i2"
           "i_help i = i_help i2"
    by (rule matchContext_mem)
  from i2 obtain i1 where
    "i2 = (case map_of (input_connections_by_name b) (i_name i1) of
             Some mapped \<Rightarrow> connect_input mapped i1 | None \<Rightarrow> i1)"
    by (auto simp: matchIds_def all_nodes_map)
  moreover from this have "i_name i2 = i_name i1"
    by (simp add: connect_input_def split: option.splits)
  ultimately have "i2 = connect_input conns i1" using assms(2) n by simp
  with f show ?thesis by (simp add: connect_input_def)
qed

lemma prepare_step_tool:
  assumes "prepare_step f' b0 = (h, s)" and "step_type s = ''tool''"
  shows "s = normalize_tool (merge_defaults f' b0)"
  using assms
  by (auto simp: prepare_step_def Let_def merge_defaults_def normalize_tool_def is_data_input_def
           split: if_splits)

lemma normalize_tool_connections:
  "input_connections_by_name (normalize_tool b) = input_connections_by_name b"
  by (simp add: normalize_tool_def Let_def)

text \<open>C3, as the claim states it, fails: the input of a data input step that has an
  incoming connection keeps its type, value and help text, and with a placeholder value
  it becomes a target of a workflow parameter.\<close>

theorem connected_data_input_counterexample:
  "\<not> isl (initialize escape_html example_connected_data_workflow)
   \<and> map (\<lambda>(c, s). (c, step_type s,
             map (\<lambda>i. (i_name i, map_of (input_connections_by_name s) (i_name i) \<noteq> None,
                        i_type i, i_value i, i_help i)) (all_nodes (inputs s))))
        (steps (projr (initialize escape_html example_connected_data_workflow)))
       = [(3, ''data_input'', [(''input'', True, JStr ''data'', JStr ''${x}'', JUndef)])]
   \<and> wp_targets (projr (initialize escape_html example_connected_data_workflow))
       = [(''x'', [(3, ''d1'')])]"
  by code_simp

text \<open>C3, amended.  For every step of type \<^verbatim>\<open>tool\<close>, every input that has an incoming
  connection is rewritten by normalisation: its type is \<^verbatim>\<open>hidden\<close>, its value is the empty
  string, its options are \<^verbatim>\<open>null\<close>, and its help text is the comma-joined list of
  "Output dataset '<name>' from step <order_index>" over the upstream connections.  Such
  an input is not recognised by the parameter scan, and with distinct identifiers among
  the input nodes of the step its field is a target of no workflow parameter.  The
  inputs of the step are all input nodes of its tree, nested ones included.\<close>

theorem connected_tool_input_rewritten:
  assumes "initialize sanitize f = Inr v" and "(c, s) \<in> set (steps v)"
    and "step_type s = ''tool''" and "i \<in> set (all_nodes (inputs s))"
    and "map_of (input_connections_by_name s) (i_name i) = Some conns"
  shows "i_type i = JStr ''hidden'' \<and> i_value i = JStr [] \<and> i_options i = JNull
       \<and> i_help i = JStr (join '', '' (map output_description conns))
       \<and> \<not> is_placeholder (i_value i)
       \<and> (distinct (map i_id (all_nodes (inputs s))) \<longrightarrow>
            (\<forall>l. (c, i_id i) \<notin> set (targets_of (wp_targets v) l)))"
proof -
  from assms(1) obtain fs st where ps: "prepare_steps 0 (wf_steps f) ([], []) = (fs, steps v)"
    by (rule initialize_parts)
  from prepare_steps_mem[OF ps assms(2)] obtain f' b0 h where
    "prepare_step f' b0 = (h, s)" by auto
  from prepare_step_tool[OF this assms(3)] have s: "s = normalize_tool (merge_defaults f' b0)" .
  from assms(5) have "map_of (input_connections_by_name (merge_defaults f' b0)) (i_name i) = Some conns"
    by (subst (asm) s) (simp add: normalize_tool_connections)
  from normalize_tool_connected[OF assms(4)[unfolded s] this]
  have A: "i_type i = JStr ''hidden''" and B: "i_value i = JStr []" and C: "i_options i = JNull"
    and D: "i_help i = JStr (provenance conns)"
    by simp_all
  from B have E: "\<not> is_placeholder (i_value i)"
    by (simp add: is_placeholder_def substring_def)
  have F: "(c, i_id i) \<notin> set (targets_of (wp_targets v) l)"
    if di: "distinct (map i_id (all_nodes (inputs s)))" for l
  proof
    assume m: "(c, i_id i) \<in> set (targets_of (wp_targets v) l)"
    from initialize_scan[OF assms(1)] have
      fo: "foldl (\<lambda>s hit. record_hit hit s) ([], [], 0) (scan_hits sanitize (steps v))
          = (wp_targets v, wp_inputs v, length (wp_inputs v))"
      by simp
    from fold_hits_targets[OF fo, of l]
    have "set (targets_of (wp_targets v) l) =
            {(k, i_id i) | k s i.
               (k, s) \<in> set (steps v) \<and> i \<in> set (top_level (inputs s))
               \<and> is_placeholder (i_value i)
               \<and> placeholder_name sanitize (i_value i) = l}"
      by (simp only: targets_of_def map_of.simps option.case append_Nil hits_handles[symmetric])
    with m obtain s' i' where s': "(c, s') \<in> set (steps v)"
      and t': "i' \<in> set (top_level (inputs s'))"
      and id: "i_id i' = i_id i" and pl: "is_placeholder (i_value i')"
      by auto
    from t' top_level_all_nodes have i': "i' \<in> set (all_nodes (inputs s'))" by blast
    from initialize_registry_ok[OF assms(1)] have "distinct (map fst (steps v))"
      by (simp add: registry_ok_def strict_sorted_iff)
    with s' assms(2) have "s' = s" by (meson eq_key_imp_eq_value)
    with i' id di assms(4) have "i' = i" by (auto simp: distinct_map dest: inj_onD)
    with pl E show False by simp
  qed
  from A B C D E F show ?thesis by (simp add: provenance_join)
qed

theorem connected_tool_input_rewritten_witness:
  "\<not> isl (initialize escape_html example_workflow)
   \<and> (11, step_at example_view 11) \<in> set (steps example_view)
   \<and> step_type (step_at example_view 11) = ''tool''
   \<and> all_nodes (inputs (step_at example_view 11)) ! 2 \<in> set (all_nodes (inputs (step_at example_view 11)))
   \<and> map_of (input_connections_by_name (step_at example_view 11))
        (i_name (all_nodes (inputs (step_at example_view 11)) ! 2))
       = Some [\<lparr>output_name = ''output'', c_order_index = 0\<rparr>]
   \<and> distinct (map i_id (all_nodes (inputs (step_at example_view 11))))
   \<and> i_type (all_nodes (inputs (step_at example_view 11)) ! 2) = JStr ''hidden''
   \<and> i_help (all_nodes (inputs (step_at example_view 11)) ! 2)
       = JStr (join '', '' (map output_description [\<lparr>output_name = ''output'', c_order_index = 0\<rparr>]))
   \<and> (11, i_id (all_nodes (inputs (step_at example_view 11)) ! 2))
       \<notin> set (targets_of (wp_targets example_view) ''color'')"
proof -
  let ?s = "step_at example_view 11"
  let ?i = "all_nodes (inputs ?s) ! 2"
  have h0: "\<not> isl (initialize escape_html example_workflow)" by code_simp
  then have h1: "initialize escape_html example_workflow = Inr example_view"
    unfolding example_view_def by (cases "initialize escape_html example_workflow") auto
  have h2: "(11, ?s) \<in> set (steps example_view)" by code_simp
  have h3: "step_type ?s = ''tool''" by code_simp
  have h4: "?i \<in> set (all_nodes (inputs ?s))" by code_simp
  have h5: "map_of (input_connections_by_name ?s) (i_name ?i)
              = Some [\<lparr>output_name = ''output'', c_order_index = 0\<rparr>]" by code_simp
  have h6: "distinct (map i_id (all_nodes (inputs ?s)))" by code_simp
  note t = connected_tool_input_rewritten[OF h1 h2 h3 h4 h5]
  from t have a: "i_type ?i = JStr ''hidden''" by (elim conjE)
  from t have b: "i_help ?i
       = JStr (join '', '' (map output_description [\<lparr>output_name = ''output'', c_order_index = 0\<rparr>]))"
    by (elim conjE)
  from t have "distinct (map i_id (all_nodes (inputs ?s))) \<longrightarrow>
            (\<forall>l. (11, i_id ?i) \<notin> set (targets_of (wp_targets example_view) l))"
    by (elim conjE)
  with h6 have c: "(11, i_id ?i) \<notin> set (targets_of (wp_targets example_view) ''color'')"
    by blast
  from h0 h2 h3 h4 h5 h6 a b c show ?thesis by (intro conjI)
qed

end
